theory Spec2Isabelle
  imports Main "HOL-Library.Word"
begin

section \<open>Strings, bytes and paths\<close>

text \<open>
  File contents are byte strings. A Python \<open>str\<close> holding document text is a list of
  Unicode code points, so that every decoder's output is representable. Paths, file
  names and extensions are \<open>string\<close>s (characters with code points below 256).
\<close>

type_synonym bytes = "8 word list"
type_synonym ustr = "nat list"

datatype error = OSError

text \<open>\<open>str.isspace\<close> on one code point: the Unicode whitespace characters.\<close>

definition is_space :: "nat \<Rightarrow> bool" where
  "is_space c \<longleftrightarrow>
     (9 \<le> c \<and> c \<le> 13) \<or> (28 \<le> c \<and> c \<le> 32) \<or> c = 133 \<or> c = 160 \<or> c = 5760 \<or>
     (8192 \<le> c \<and> c \<le> 8202) \<or> c = 8232 \<or> c = 8233 \<or> c = 8239 \<or> c = 8287 \<or> c = 12288"

text \<open>\<open>s.strip()\<close>: drop leading and trailing whitespace.\<close>

definition strip :: "ustr \<Rightarrow> ustr" where
  "strip s = rev (dropWhile is_space (rev (dropWhile is_space s)))"

text \<open>\<open>sep.join(parts)\<close>.\<close>

fun join :: "'a list \<Rightarrow> 'a list list \<Rightarrow> 'a list" where
  "join sep [] = []"
| "join sep [p] = p"
| "join sep (p # q # ps) = p @ sep @ join sep (q # ps)"

definition newline :: ustr where
  "newline = [10]"

text \<open>The literal \<open>" | "\<close> of \<open>parse_xlsx\<close>.\<close>

definition bar_sep :: ustr where
  "bar_sep = [32, 124, 32]"

text \<open>
  \<open>str.lower()\<close> on a path character: the ASCII capitals and the Latin-1 capitals
  (U+00C0 to U+00DE without the multiplication sign U+00D7) move up by 32.
\<close>

definition lower_char :: "char \<Rightarrow> char" where
  "lower_char c =
     (let n = (of_char c :: nat)
      in if (65 \<le> n \<and> n \<le> 90) \<or> (192 \<le> n \<and> n \<le> 222 \<and> n \<noteq> 215)
         then char_of (n + 32) else c)"

definition lower :: "string \<Rightarrow> string" where
  "lower s = map lower_char s"

text \<open>\<open>s.split(c)\<close> for a one-character separator: never the empty list.\<close>

fun split_sep :: "char \<Rightarrow> string \<Rightarrow> string list" where
  "split_sep c [] = [[]]"
| "split_sep c (x # xs) =
     (if x = c then [] # split_sep c xs
      else (case split_sep c xs of
              [] \<Rightarrow> [[x]]
            | w # ws \<Rightarrow> (x # w) # ws))"

text \<open>
  \<open>PurePosixPath(p).name\<close>: the last path component, after empty components and
  \<open>.\<close> components are dropped; the empty string when none is left.
\<close>

definition path_name :: "string \<Rightarrow> string" where
  "path_name p =
     (let parts = filter (\<lambda>w. w \<noteq> [] \<and> w \<noteq> ''.'') (split_sep CHR ''/'' p)
      in if parts = [] then [] else last parts)"

text \<open>\<open>s.rfind(c)\<close>: the index of the last occurrence, \<open>-1\<close> when there is none.\<close>

definition rfind :: "char \<Rightarrow> string \<Rightarrow> int" where
  "rfind c s =
     (if c \<in> set s
      then int (length s) - 1 - int (length (takeWhile (\<lambda>x. x \<noteq> c) (rev s)))
      else - 1)"

text \<open>
  \<open>Path(p).suffix\<close>: the part of the name from its last dot on, when that dot is
  neither the first nor the last character of the name.
\<close>

definition suffix :: "string \<Rightarrow> string" where
  "suffix p =
     (let name = path_name p; i = rfind CHR ''.'' name
      in if 0 < i \<and> i < int (length name) - 1 then drop (nat i) name else [])"

text \<open>\<open>os.path.join(a, b)\<close> on POSIX.\<close>

definition path_join :: "string \<Rightarrow> string \<Rightarrow> string" where
  "path_join a b =
     (if b \<noteq> [] \<and> hd b = CHR ''/'' then b
      else if a = [] \<or> last a = CHR ''/'' then a @ b
      else a @ ''/'' @ b)"

text \<open>\<open>ext.lstrip(".")\<close>.\<close>

definition lstrip_dot :: "string \<Rightarrow> string" where
  "lstrip_dot s = dropWhile (\<lambda>c. c = CHR ''.'') s"

section \<open>The environment: optional decoders and library functions\<close>

text \<open>
  A spreadsheet cell is \<open>None\<close> or a value, kept as the text \<open>str(c)\<close> gives for it.
  A workbook is its worksheets in \<open>wb.sheetnames\<close> order, each the rows that
  \<open>iter_rows(values_only=True)\<close> yields.
\<close>

type_synonym cell = "ustr option"
type_synonym workbook = "cell list list list"

text \<open>
  The four \<open>HAS_*\<close> flags are set once by the guarded imports at the top of the
  module. The library functions are parameters: the MD5 digest, the two codecs that
  can fail, and for each document library what it yields on a path and the bytes it
  reads there, \<open>None\<close> when it raises anywhere inside the parser's \<open>try\<close> block
  (\<open>openpyxl\<close>, for one, refuses a path that ends in \<open>.xls\<close>). \<open>isoformat\<close> stands
  for \<open>datetime.fromtimestamp(t).isoformat()\<close>.
\<close>

record env =
  HAS_DOCX :: bool
  HAS_XLSX :: bool
  HAS_PDF :: bool
  HAS_7Z :: bool
  md5_hexdigest :: "bytes \<Rightarrow> string"
  decode_utf8 :: "bytes \<Rightarrow> ustr option"
  decode_cp1251 :: "bytes \<Rightarrow> ustr option"
  docx_paragraphs :: "string \<Rightarrow> bytes \<Rightarrow> ustr list option"
  xlsx_sheets :: "string \<Rightarrow> bytes \<Rightarrow> workbook option"
  pdf_pages :: "string \<Rightarrow> bytes \<Rightarrow> ustr list option"
  isoformat :: "int \<Rightarrow> string"

section \<open>Text extraction\<close>

datatype encoding = UTF8 | CP1251 | LATIN1

text \<open>Latin-1 maps every byte to the code point of the same number.\<close>

definition decode_latin1 :: "bytes \<Rightarrow> ustr" where
  "decode_latin1 bs = map unat bs"

fun decode :: "env \<Rightarrow> encoding \<Rightarrow> bytes \<Rightarrow> ustr option" where
  "decode E UTF8 bs = decode_utf8 E bs"
| "decode E CP1251 bs = decode_cp1251 E bs"
| "decode E LATIN1 bs = Some (decode_latin1 bs)"

text \<open>
  A file opened in text mode with the default \<open>newline=None\<close>: \<open>read()\<close> turns
  \<open>\r\n\<close> and a lone \<open>\r\<close> into \<open>\n\<close>.
\<close>

fun universal_newlines :: "ustr \<Rightarrow> ustr" where
  "universal_newlines [] = []"
| "universal_newlines [c] = (if c = 13 then [10] else [c])"
| "universal_newlines (c # d # s) =
     (if c = 13 \<and> d = 10 then 10 # universal_newlines s
      else if c = 13 then 10 # universal_newlines (d # s)
      else c # universal_newlines (d # s))"

text \<open>
  The loop of \<open>parse_txt\<close> over the encodings still to try. The file is what
  \<open>open\<close> gives: \<open>None\<close> when it raises \<open>OSError\<close>, which the loop does not catch;
  a \<open>UnicodeDecodeError\<close> moves on to the next encoding; after the last one the
  function returns the empty string.
\<close>

fun parse_txt_loop :: "env \<Rightarrow> encoding list \<Rightarrow> bytes option \<Rightarrow> error + ustr" where
  "parse_txt_loop E [] f = Inr []"
| "parse_txt_loop E (enc # encs) f =
     (case f of
        None \<Rightarrow> Inl OSError
      | Some bs \<Rightarrow>
          (case decode E enc bs of
             Some s \<Rightarrow> Inr (universal_newlines s)
           | None \<Rightarrow> parse_txt_loop E encs f))"

definition parse_txt :: "env \<Rightarrow> string \<Rightarrow> bytes option \<Rightarrow> error + ustr" where
  "parse_txt E path f = parse_txt_loop E [UTF8, CP1251, LATIN1] f"

text \<open>
  \<open>parse_docx\<close>: empty without the library; any exception gives the empty string;
  otherwise the paragraphs whose text is not blank, joined by newlines.
\<close>

definition parse_docx :: "env \<Rightarrow> string \<Rightarrow> bytes option \<Rightarrow> error + ustr" where
  "parse_docx E path f =
     (if \<not> HAS_DOCX E then Inr []
      else case Option.bind f (docx_paragraphs E path) of
             None \<Rightarrow> Inr []
           | Some ps \<Rightarrow> Inr (join newline (filter (\<lambda>p. strip p \<noteq> []) ps)))"

text \<open>\<open>" | ".join(str(c) for c in row if c is not None)\<close>.\<close>

definition row_str :: "cell list \<Rightarrow> ustr" where
  "row_str row = join bar_sep (List.map_filter (\<lambda>c. c) row)"

text \<open>The inner loop of \<open>parse_xlsx\<close> over the rows of one sheet, appending to \<open>parts\<close>.\<close>

fun xlsx_rows_loop :: "ustr list \<Rightarrow> cell list list \<Rightarrow> ustr list" where
  "xlsx_rows_loop parts [] = parts"
| "xlsx_rows_loop parts (row # rows) =
     (if strip (row_str row) \<noteq> [] then xlsx_rows_loop (parts @ [row_str row]) rows
      else xlsx_rows_loop parts rows)"

text \<open>The outer loop over the sheets.\<close>

fun xlsx_sheets_loop :: "ustr list \<Rightarrow> workbook \<Rightarrow> ustr list" where
  "xlsx_sheets_loop parts [] = parts"
| "xlsx_sheets_loop parts (ws # wss) = xlsx_sheets_loop (xlsx_rows_loop parts ws) wss"

definition parse_xlsx :: "env \<Rightarrow> string \<Rightarrow> bytes option \<Rightarrow> error + ustr" where
  "parse_xlsx E path f =
     (if \<not> HAS_XLSX E then Inr []
      else case Option.bind f (xlsx_sheets E path) of
             None \<Rightarrow> Inr []
           | Some wb \<Rightarrow> Inr (join newline (xlsx_sheets_loop [] wb)))"

text \<open>\<open>parse_pdf\<close>: the pages whose extracted text is not empty, joined by newlines.\<close>

definition parse_pdf :: "env \<Rightarrow> string \<Rightarrow> bytes option \<Rightarrow> error + ustr" where
  "parse_pdf E path f =
     (if \<not> HAS_PDF E then Inr []
      else case Option.bind f (pdf_pages E path) of
             None \<Rightarrow> Inr []
           | Some pages \<Rightarrow> Inr (join newline (filter (\<lambda>t. t \<noteq> []) pages)))"

text \<open>The table \<open>PARSERS\<close>, in the order it is written.\<close>

definition PARSERS :: "(string \<times> (env \<Rightarrow> string \<Rightarrow> bytes option \<Rightarrow> error + ustr)) list" where
  "PARSERS =
     [(''.txt'', parse_txt),
      (''.docx'', parse_docx),
      (''.xlsx'', parse_xlsx),
      (''.xls'', parse_xlsx),
      (''.pdf'', parse_pdf),
      (''.csv'', parse_txt)]"

text \<open>
  \<open>extract_text\<close>: \<open>None\<close> when the extension has no parser, otherwise what the
  parser returns. The last argument is what the parser reads when it opens the path
  (\<open>None\<close>: the open fails).
\<close>

definition extract_text :: "env \<Rightarrow> string \<Rightarrow> bytes option \<Rightarrow> error + ustr option" where
  "extract_text E filepath f =
     (let ext = lower (suffix filepath)
      in case map_of PARSERS ext of
           None \<Rightarrow> Inr None
         | Some parser \<Rightarrow>
             (case parser E filepath f of Inl e \<Rightarrow> Inl e | Inr text \<Rightarrow> Inr (Some text)))"

section \<open>Hashing\<close>

text \<open>\<open>iter(lambda: f.read(n), b"")\<close>: chunks of \<open>n\<close> bytes until the empty read.\<close>

function read_chunks :: "nat \<Rightarrow> bytes \<Rightarrow> bytes list" where
  "read_chunks n bs =
     (if n = 0 \<or> bs = [] then [] else take n bs # read_chunks n (drop n bs))"
  by pat_completeness auto
termination
  by (relation "measure (\<lambda>(n, bs). length bs)") auto

declare read_chunks.simps [simp del]

text \<open>
  \<open>file_hash\<close>: \<open>OSError\<close> when the file cannot be opened; otherwise the digest
  after updating with each chunk, which is the digest of the chunks put together.
\<close>

definition file_hash :: "env \<Rightarrow> bytes option \<Rightarrow> error + string" where
  "file_hash E f =
     (case f of
        None \<Rightarrow> Inl OSError
      | Some bs \<Rightarrow> Inr (md5_hexdigest E (concat (read_chunks 8192 bs))))"

section \<open>The file tree and the Document Record\<close>

record stat_result =
  st_size :: nat
  st_mtime :: int

text \<open>
  One file that \<open>os.walk\<close> reports, with what each operation on it gives at the
  moment the crawl performs it: its directory and name, the bytes that \<open>file_hash\<close>
  reads (\<open>None\<close>: \<open>OSError\<close>), the bytes that the parser reads when it opens the
  file again afterwards (\<open>None\<close>: the open fails), the result of \<open>os.stat\<close>
  (\<open>None\<close>: \<open>OSError\<close>), and the files that unpacking it as an archive leaves in
  the temporary directory, in walk order (\<open>None\<close>: the unpacking library raises).
\<close>

datatype entry =
  Entry (e_dir: string) (e_name: string) (e_bytes: "bytes option")
        (e_reread: "bytes option") (e_stat: "stat_result option")
        (e_unpacked: "entry list option")

text \<open>
  The dictionary that \<open>crawl_directory\<close> appends for one document. Its key
  \<open>file_hash\<close> is the field \<open>file_hash_val\<close> here, \<open>file_hash\<close> being the
  name of the hashing function.
\<close>

record document =
  file_path :: string
  file_name :: string
  extension :: string
  size_bytes :: nat
  modified_at :: string
  source_archive :: string
  content :: ustr
  file_hash_val :: string

section \<open>Crawling\<close>

definition ARCHIVE_EXTS :: "string set" where
  "ARCHIVE_EXTS = {''.zip'', ''.7z'', ''.rar''}"

definition SUPPORTED_EXTS :: "string set" where
  "SUPPORTED_EXTS = set (map fst PARSERS) \<union> ARCHIVE_EXTS"

text \<open>
  What \<open>unpack_zip\<close> and \<open>unpack_7z\<close> leave in the temporary directory: \<open>None\<close>
  when the call raises. Without \<open>py7zr\<close>, \<open>unpack_7z\<close> returns at once and the
  directory stays empty.
\<close>

definition unpack_zip :: "entry \<Rightarrow> entry list option" where
  "unpack_zip a = e_unpacked a"

definition unpack_7z :: "env \<Rightarrow> entry \<Rightarrow> entry list option" where
  "unpack_7z E a = (if \<not> HAS_7Z E then Some [] else e_unpacked a)"

text \<open>\<open>parent_archive or archive_path\<close>.\<close>

definition label_or :: "string \<Rightarrow> string \<Rightarrow> string" where
  "label_or parent_archive archive_path =
     (if parent_archive \<noteq> [] then parent_archive else archive_path)"

text \<open>
  \<open>crawl_loop\<close> is the loop of \<open>crawl_directory\<close> over the files still to visit,
  with the local variables \<open>seen_hashes\<close> and \<open>records\<close>; \<open>process_archive\<close>
  takes the archive's entry with its path. An exception that the source does not catch
  ends both with \<open>Inl\<close>. Creating and removing the temporary directory is taken
  to succeed.
\<close>

function (sequential)
  crawl_loop :: "env \<Rightarrow> string \<Rightarrow> entry list \<Rightarrow> string set \<Rightarrow> document list
                 \<Rightarrow> error + document list"
and
  process_archive :: "env \<Rightarrow> entry \<Rightarrow> string \<Rightarrow> string \<Rightarrow> error + document list"
where
  "crawl_loop E archive_label [] seen_hashes records = Inr records"
| "crawl_loop E archive_label (e # es) seen_hashes records =
     (let fname = e_name e;
          fpath = path_join (e_dir e) fname;
          ext = lower (suffix fname)
      in if ext \<notin> SUPPORTED_EXTS then crawl_loop E archive_label es seen_hashes records
         else if ext \<in> ARCHIVE_EXTS then
           (case process_archive E e fpath fpath of
              Inl x \<Rightarrow> Inl x
            | Inr sub_records \<Rightarrow>
                crawl_loop E archive_label es seen_hashes (records @ sub_records))
         else
           (case file_hash E (e_bytes e) of
              Inl x \<Rightarrow> crawl_loop E archive_label es seen_hashes records
            | Inr fhash \<Rightarrow>
                if fhash \<in> seen_hashes then crawl_loop E archive_label es seen_hashes records
                else
                  (case extract_text E fpath (e_reread e) of
                     Inl x \<Rightarrow> Inl x
                   | Inr None \<Rightarrow>
                       crawl_loop E archive_label es (insert fhash seen_hashes) records
                   | Inr (Some text) \<Rightarrow>
                       (case e_stat e of
                          None \<Rightarrow> Inl OSError
                        | Some stat \<Rightarrow>
                            crawl_loop E archive_label es (insert fhash seen_hashes)
                              (records @
                               [\<lparr>file_path = fpath,
                                 file_name = fname,
                                 extension = lstrip_dot ext,
                                 size_bytes = st_size stat,
                                 modified_at = isoformat E (st_mtime stat),
                                 source_archive = archive_label,
                                 content = strip text,
                                 file_hash_val = fhash\<rparr>])))))"
| "process_archive E a archive_path parent_archive =
     (let ext = lower (suffix archive_path);
          tmpdir = (if ext = ''.zip'' then Some (unpack_zip a)
                    else if ext = ''.7z'' then Some (unpack_7z E a)
                    else None)
      in case tmpdir of
           None \<Rightarrow> Inr []
         | Some None \<Rightarrow> Inr []
         | Some (Some files) \<Rightarrow>
             (let archive_label = label_or parent_archive archive_path
              in case crawl_loop E archive_label files {} [] of
                   Inl x \<Rightarrow> Inl x
                 | Inr rs \<Rightarrow> Inr (map (\<lambda>r. r\<lparr>source_archive := archive_label\<rparr>) rs)))"
  by pat_completeness auto

termination crawl_loop
proof (relation "measure (\<lambda>x. case x of
                            Inl (E, l, es, s, r) \<Rightarrow> size_list size es
                          | Inr (E, a, p, q) \<Rightarrow> size a)", goal_cases)
  case (9 E a archive_path parent_archive x xa x2 x2a xb)
  have pos: "0 < size a"
    by (cases a) simp
  have less: "size_list size x2a < size a" if "e_unpacked a = Some x2a"
    using that by (cases a) auto
  from 9 have "e_unpacked a = Some x2a \<or> x2a = []"
    by (auto simp: unpack_zip_def unpack_7z_def split: if_splits)
  then show ?case
    using less pos by auto
qed simp_all

text \<open>\<open>crawl_directory\<close>: the loop started with no record and nothing seen.\<close>

definition crawl_directory :: "env \<Rightarrow> entry list \<Rightarrow> string \<Rightarrow> error + document list" where
  "crawl_directory E root archive_label = crawl_loop E archive_label root {} []"

section \<open>The two sinks and the command\<close>

definition FIELDNAMES :: "string list" where
  "FIELDNAMES =
     [''file_path'', ''file_name'', ''extension'', ''size_bytes'', ''modified_at'',
      ''source_archive'', ''content'', ''file_hash'']"

text \<open>The CSV file that \<open>save_csv\<close> writes: the header, then one row for each record.\<close>

definition save_csv :: "document list \<Rightarrow> string list \<times> document list" where
  "save_csv records = (FIELDNAMES, records)"

text \<open>
  The SQLite database: the rows of \<open>documents\<close> with their \<open>id\<close>, in insertion
  order, the index \<open>documents_fts\<close> over \<open>file_name\<close> and \<open>content\<close>, and the
  counter that \<open>AUTOINCREMENT\<close> keeps for \<open>documents\<close> in \<open>sqlite_sequence\<close>.
\<close>

record store =
  documents :: "(nat \<times> document) list"
  documents_fts :: "(nat \<times> string \<times> ustr) list"
  sqlite_sequence :: nat

text \<open>
  The \<open>id\<close> that \<open>AUTOINCREMENT\<close> gives to the next insert: one more than the
  larger of the counter and the largest \<open>id\<close> in the table.
\<close>

definition next_id :: "(nat \<times> document) list \<Rightarrow> nat \<Rightarrow> nat" where
  "next_id rows seq = Suc (max seq (fold max (map fst rows) 0))"

text \<open>
  \<open>INSERT OR IGNORE\<close> under \<open>file_hash TEXT UNIQUE\<close>: a row whose hash is in the
  table already is dropped; the \<open>id\<close> taken for it is used up all the same. The
  result is the table, the counter and \<open>cur.rowcount\<close>.
\<close>

definition insert_or_ignore ::
  "(nat \<times> document) list \<Rightarrow> nat \<Rightarrow> document \<Rightarrow> (nat \<times> document) list \<times> nat \<times> nat" where
  "insert_or_ignore rows seq r =
     (if file_hash_val r \<in> set (map (file_hash_val \<circ> snd) rows)
      then (rows, next_id rows seq, 0)
      else (rows @ [(next_id rows seq, r)], next_id rows seq, 1))"

text \<open>The loop of \<open>load_to_sqlite\<close> over the records, with the counter \<open>inserted\<close>.\<close>

fun insert_loop ::
  "(nat \<times> document) list \<Rightarrow> nat \<Rightarrow> nat \<Rightarrow> document list
   \<Rightarrow> (nat \<times> document) list \<times> nat \<times> nat" where
  "insert_loop rows seq inserted [] = (rows, seq, inserted)"
| "insert_loop rows seq inserted (r # rs) =
     (case insert_or_ignore rows seq r of
        (rows', seq', rowcount) \<Rightarrow>
          insert_loop rows' seq' (if rowcount \<noteq> 0 then inserted + 1 else inserted) rs)"

text \<open>\<open>INSERT INTO documents_fts(documents_fts) VALUES('rebuild')\<close>.\<close>

definition rebuild :: "(nat \<times> document) list \<Rightarrow> (nat \<times> string \<times> ustr) list" where
  "rebuild rows = map (\<lambda>(i, d). (i, file_name d, content d)) rows"

text \<open>
  \<open>load_to_sqlite\<close> on the database found at the path (\<open>None\<close>: no file yet, both
  tables are created empty). It gives the database after the commit and the number
  of inserted rows that it logs.
\<close>

definition load_to_sqlite :: "document list \<Rightarrow> store option \<Rightarrow> store \<times> nat" where
  "load_to_sqlite records db =
     (let rows0 = (case db of None \<Rightarrow> [] | Some s \<Rightarrow> documents s);
          seq0 = (case db of None \<Rightarrow> 0 | Some s \<Rightarrow> sqlite_sequence s)
      in case insert_loop rows0 seq0 0 records of
           (rows, seq, inserted) \<Rightarrow>
             (\<lparr>documents = rows, documents_fts = rebuild rows, sqlite_sequence = seq\<rparr>,
              inserted))"

text \<open>The files at \<open>--output\<close> and \<open>--db\<close>, \<open>None\<close> when the file does not exist.\<close>

record outputs =
  csv_file :: "(string list \<times> document list) option"
  db_file :: "store option"

text \<open>\<open>main\<close> on the tree under \<open>--root\<close>.\<close>

definition main :: "env \<Rightarrow> entry list \<Rightarrow> outputs \<Rightarrow> error + outputs" where
  "main E root out =
     (case crawl_directory E root [] of
        Inl x \<Rightarrow> Inl x
      | Inr records \<Rightarrow>
          if records = [] then Inr out
          else Inr \<lparr>csv_file = Some (save_csv records),
                    db_file = Some (fst (load_to_sqlite records (db_file out)))\<rparr>)"

section \<open>Notions of the specification\<close>

text \<open>
  The files of a walk that \<open>crawl_directory\<close> handles itself: those whose
  extension is not an archive extension.
\<close>

definition own_files :: "entry list \<Rightarrow> entry list" where
  "own_files es = filter (\<lambda>e. lower (suffix (e_name e)) \<notin> ARCHIVE_EXTS) es"

text \<open>
  The records that the loop of \<open>crawl_directory\<close> gets from \<open>process_archive\<close>
  for one archive file of its walk, none when that call raises.
\<close>

definition archive_records :: "env \<Rightarrow> entry \<Rightarrow> document list" where
  "archive_records E a =
     (case process_archive E a (path_join (e_dir a) (e_name a))
             (path_join (e_dir a) (e_name a)) of
        Inl x \<Rightarrow> []
      | Inr sub \<Rightarrow> sub)"

text \<open>
  First-seen wins: going through the records in order, a record is kept when its
  fingerprint is not among those already in the store or already kept.
\<close>

fun first_seen :: "string set \<Rightarrow> document list \<Rightarrow> document list" where
  "first_seen H [] = []"
| "first_seen H (r # rs) =
     (if file_hash_val r \<in> H then first_seen H rs
      else r # first_seen (insert (file_hash_val r) H) rs)"

text \<open>The fingerprints held by the rows of \<open>documents\<close>.\<close>

definition row_hashes :: "(nat \<times> document) list \<Rightarrow> string set" where
  "row_hashes rows = set (map (file_hash_val \<circ> snd) rows)"

text \<open>The lines of a workbook as the specification words them: every row in order.\<close>

definition all_rows :: "workbook \<Rightarrow> cell list list" where
  "all_rows wb = concat wb"

section \<open>A small environment and file trees for concrete runs\<close>

text \<open>
  Stand-ins for the library functions, exact on the inputs used below: the digest
  knows the MD5 values of the byte strings of the sample files, the UTF-8 decoder
  accepts ASCII and rejects the bytes from 128 on by themselves, the CP1251 decoder
  knows ASCII and the letters at 192 to 255 and rejects the undefined byte 152.
\<close>

definition sample_md5 :: "bytes \<Rightarrow> string" where
  "sample_md5 bs =
     (if bs = [104, 105] then ''49f68a5c8493ec2c0bf489821c21fc3b''
      else if bs = [111, 107] then ''444bcb3a3fcf8389296c49467f27e1d6''
      else if bs = [80, 75, 1] then ''4f8e9ca11add80e8e15166418bfee2f6''
      else ''d41d8cd98f00b204e9800998ecf8427e'')"

definition sample_utf8 :: "bytes \<Rightarrow> ustr option" where
  "sample_utf8 bs = (if list_all (\<lambda>b. b < 128) bs then Some (map unat bs) else None)"

definition sample_cp1251 :: "bytes \<Rightarrow> ustr option" where
  "sample_cp1251 bs =
     (if list_all (\<lambda>b. b < 128 \<or> 192 \<le> b) bs
      then Some (map (\<lambda>b. if b < 128 then unat b else unat b + 848) bs)
      else None)"

text \<open>
  A workbook of two sheets: the first has the rows \<open>A, None, B\<close>, then two empty
  cells, then one cell holding a single space; the second has the row \<open>C\<close>.
\<close>

definition sample_workbook :: workbook where
  "sample_workbook =
     [[[Some [65], None, Some [66]], [None, None], [Some [32]]],
      [[Some [67]]]]"

definition sample_env :: env where
  "sample_env =
     \<lparr>HAS_DOCX = True, HAS_XLSX = True, HAS_PDF = True, HAS_7Z = True,
      md5_hexdigest = sample_md5,
      decode_utf8 = sample_utf8,
      decode_cp1251 = sample_cp1251,
      docx_paragraphs = (\<lambda>p bs. if bs = [80, 75, 1] then Some [[72, 105]] else None),
      xlsx_sheets =
        (\<lambda>p bs. if p = ''storage/t.xlsx'' \<and> bs = [80, 75, 2] then Some sample_workbook
                else None),
      pdf_pages = (\<lambda>p bs. None),
      isoformat = (\<lambda>t. ''1970-01-01T00:00:00'')\<rparr>"

text \<open>The same machine without \<open>python-docx\<close>.\<close>

definition no_docx_env :: env where
  "no_docx_env = sample_env\<lparr>HAS_DOCX := False\<rparr>"

text \<open>The \<open>os.stat\<close> result of a file of \<open>n\<close> bytes last changed at the epoch.\<close>

definition sample_stat :: "nat \<Rightarrow> stat_result" where
  "sample_stat n = \<lparr>st_size = n, st_mtime = 0\<rparr>"

text \<open>A healthy file: both opens read the same bytes and \<open>os.stat\<close> succeeds.\<close>

definition plain_file :: "string \<Rightarrow> string \<Rightarrow> bytes \<Rightarrow> entry" where
  "plain_file d name bs =
     Entry d name (Some bs) (Some bs) (Some (sample_stat (length bs))) None"

text \<open>A healthy archive file with the files that unpacking it gives.\<close>

definition archive_file :: "string \<Rightarrow> string \<Rightarrow> bytes \<Rightarrow> entry list \<Rightarrow> entry" where
  "archive_file d name bs files =
     Entry d name (Some bs) (Some bs) (Some (sample_stat (length bs))) (Some files)"

text \<open>A text file \<open>hi\<close> in the root and the same two bytes inside a zip archive.\<close>

definition dup_root :: "entry list" where
  "dup_root =
     [plain_file ''storage'' ''a.txt'' [104, 105],
      archive_file ''storage'' ''b.zip'' [80, 75]
        [plain_file ''/tmp/t1'' ''c.txt'' [104, 105]]]"

text \<open>
  Two files with the same bytes side by side in the root, and two more files with
  these bytes side by side inside a zip archive.
\<close>

definition twin_zip :: entry where
  "twin_zip =
     archive_file ''storage'' ''b.zip'' [80, 75]
       [plain_file ''/tmp/t1'' ''c.txt'' [104, 105],
        plain_file ''/tmp/t1'' ''d.txt'' [104, 105]]"

definition twin_root :: "entry list" where
  "twin_root =
     [plain_file ''storage'' ''a.txt'' [104, 105],
      plain_file ''storage'' ''copy.csv'' [104, 105],
      twin_zip]"

text \<open>A word-processor file of three bytes.\<close>

definition docx_root :: "entry list" where
  "docx_root = [plain_file ''storage'' ''r.docx'' [80, 75, 1]]"

text \<open>A zip archive holding a zip archive holding a text file.\<close>

definition inner_zip :: entry where
  "inner_zip =
     archive_file ''/tmp/t1'' ''inner.zip'' [80, 75]
       [plain_file ''/tmp/t2'' ''c.txt'' [104, 105]]"

definition outer_zip :: entry where
  "outer_zip = archive_file ''storage'' ''outer.zip'' [80, 75] [inner_zip]"

text \<open>
  A text file that is read for hashing and extraction and is gone when \<open>os.stat\<close>
  is called, followed by a second, healthy file.
\<close>

definition vanishing_root :: "entry list" where
  "vanishing_root =
     [Entry ''storage'' ''a.txt'' (Some [104, 105]) (Some [104, 105]) None None,
      plain_file ''storage'' ''b.txt'' [111, 107]]"

text \<open>
  A text file that is read for hashing and is gone when \<open>parse_txt\<close> opens it,
  followed by the same healthy file.
\<close>

definition reopen_root :: "entry list" where
  "reopen_root =
     [Entry ''storage'' ''a.txt'' (Some [104, 105]) None None None,
      plain_file ''storage'' ''b.txt'' [111, 107]]"

text \<open>An unreadable file followed by the same healthy file.\<close>

definition unreadable_root :: "entry list" where
  "unreadable_root =
     [Entry ''storage'' ''a.txt'' None None (Some (sample_stat 2)) None,
      plain_file ''storage'' ''b.txt'' [111, 107]]"

text \<open>A RAR archive followed by a text file.\<close>

definition rar_entry :: entry where
  "rar_entry = plain_file ''storage'' ''old.rar'' [82, 97, 114]"

definition txt_entry :: entry where
  "txt_entry = plain_file ''storage'' ''b.txt'' [111, 107]"

text \<open>A root that holds only a file of an extension the crawl does not know.\<close>

definition md_root :: "entry list" where
  "md_root = [plain_file ''storage'' ''readme.md'' [35]]"

definition no_outputs :: outputs where
  "no_outputs = \<lparr>csv_file = None, db_file = None\<rparr>"

text \<open>The record of a two-byte text file \<open>hi\<close> in the root.\<close>

definition sample_doc :: "string \<Rightarrow> string \<Rightarrow> document" where
  "sample_doc name h =
     \<lparr>file_path = ''storage/'' @ name, file_name = name, extension = ''txt'',
      size_bytes = 2, modified_at = ''1970-01-01T00:00:00'', source_archive = [],
      content = [104, 105], file_hash_val = h\<rparr>"

text \<open>Three records, the second with the fingerprint of the first.\<close>

definition sample_records :: "document list" where
  "sample_records =
     [sample_doc ''a.txt'' ''49f68a5c8493ec2c0bf489821c21fc3b'',
      sample_doc ''copy.txt'' ''49f68a5c8493ec2c0bf489821c21fc3b'',
      sample_doc ''b.txt'' ''444bcb3a3fcf8389296c49467f27e1d6'']"

section \<open>Paths and extensions\<close>

lemma split_sep_nonempty: "split_sep c s \<noteq> []"
  by (induction s) (auto split: list.splits)

lemma split_sep_append: "split_sep c (a @ c # b) = split_sep c a @ split_sep c b"
  by (induction a) (auto simp: split_sep_nonempty split: list.splits)

text \<open>Joining a directory in front of a name leaves the last component as it is.\<close>

lemma path_name_join:
  assumes "path_name b \<noteq> []"
  shows "path_name (path_join a b) = path_name b"
proof -
  let ?P = "\<lambda>w. w \<noteq> [] \<and> w \<noteq> ''.''"
  from assms have ne: "filter ?P (split_sep CHR ''/'' b) \<noteq> []"
    by (auto simp: path_name_def Let_def split: if_splits)
  have step: "path_name (a' @ CHR ''/'' # b) = path_name b" for a'
    using ne by (simp add: path_name_def split_sep_append Let_def)
  show ?thesis
  proof (cases "b \<noteq> [] \<and> hd b = CHR ''/''")
    case True
    then show ?thesis by (simp add: path_join_def)
  next
    case rel: False
    show ?thesis
    proof (cases "a = [] \<or> last a = CHR ''/''")
      case True
      show ?thesis
      proof (cases a rule: rev_cases)
        case Nil
        then show ?thesis using rel by (simp add: path_join_def)
      next
        case (snoc a' x)
        with True have "x = CHR ''/''" by simp
        with snoc have "path_join a b = a' @ CHR ''/'' # b"
          using rel by (simp add: path_join_def)
        then show ?thesis using step [of a'] by simp
      qed
    next
      case False
      then have "path_join a b = a @ CHR ''/'' # b"
        using rel by (simp add: path_join_def)
      then show ?thesis using step [of a] by simp
    qed
  qed
qed

lemma suffix_nonempty_name: "suffix p \<noteq> [] \<Longrightarrow> path_name p \<noteq> []"
  by (auto simp: suffix_def Let_def rfind_def split: if_splits)

lemma suffix_path_join: "suffix b \<noteq> [] \<Longrightarrow> suffix (path_join a b) = suffix b"
  using path_name_join [OF suffix_nonempty_name, of b a] by (simp add: suffix_def)

lemma lower_Nil_iff: "lower s = [] \<longleftrightarrow> s = []"
  by (simp add: lower_def)

lemma path_join_Nil_iff: "path_join a b = [] \<longleftrightarrow> a = [] \<and> b = []"
  by (auto simp: path_join_def)

lemma suffix_nonempty_arg: "suffix p \<noteq> [] \<Longrightarrow> p \<noteq> []"
  by (auto simp: suffix_def path_name_def rfind_def Let_def)

lemma PARSERS_keys:
  "fst ` set PARSERS = {''.txt'', ''.docx'', ''.xlsx'', ''.xls'', ''.pdf'', ''.csv''}"
  by (simp add: PARSERS_def)

lemma ARCHIVE_subset_SUPPORTED: "ext \<in> ARCHIVE_EXTS \<Longrightarrow> ext \<in> SUPPORTED_EXTS"
  by (simp add: SUPPORTED_EXTS_def)

lemma PARSERS_not_ARCHIVE: "ext \<in> fst ` set PARSERS \<Longrightarrow> ext \<notin> ARCHIVE_EXTS"
  by (auto simp: PARSERS_def ARCHIVE_EXTS_def)

lemma PARSERS_subset_SUPPORTED: "ext \<in> fst ` set PARSERS \<Longrightarrow> ext \<in> SUPPORTED_EXTS"
  by (simp add: SUPPORTED_EXTS_def)

lemma supported_nonempty: "ext \<in> SUPPORTED_EXTS \<Longrightarrow> ext \<noteq> []"
  by (auto simp: SUPPORTED_EXTS_def ARCHIVE_EXTS_def PARSERS_def)

text \<open>
  \<open>crawl_directory\<close> takes the extension from the name and \<open>extract_text\<close> and
  \<open>process_archive\<close> take it from the joined path: for a supported extension the
  two agree.
\<close>

lemma ext_path_join:
  "lower (suffix fname) \<in> SUPPORTED_EXTS \<Longrightarrow>
   lower (suffix (path_join d fname)) = lower (suffix fname)"
  using supported_nonempty [of "lower (suffix fname)"] suffix_path_join [of fname d]
  by (auto simp: lower_Nil_iff)

lemma fpath_nonempty:
  "lower (suffix fname) \<in> SUPPORTED_EXTS \<Longrightarrow> path_join d fname \<noteq> []"
  using supported_nonempty [of "lower (suffix fname)"] suffix_nonempty_arg [of fname]
  by (auto simp: lower_Nil_iff path_join_Nil_iff)

lemma map_of_PARSERS_Some:
  "ext \<in> SUPPORTED_EXTS \<Longrightarrow> ext \<notin> ARCHIVE_EXTS \<Longrightarrow> \<exists>p. map_of PARSERS ext = Some p"
  by (auto simp: SUPPORTED_EXTS_def PARSERS_def)

lemma extract_text_not_unsupported:
  assumes "lower (suffix fname) \<in> SUPPORTED_EXTS" and "lower (suffix fname) \<notin> ARCHIVE_EXTS"
  shows "extract_text E (path_join d fname) f \<noteq> Inr None"
proof -
  obtain p where "map_of PARSERS (lower (suffix fname)) = Some p"
    using map_of_PARSERS_Some [OF assms] by blast
  then show ?thesis
    using ext_path_join [OF assms(1), of d]
    by (simp add: extract_text_def split: sum.splits)
qed

section \<open>Hashing reads the whole file\<close>

lemma concat_read_chunks: "0 < n \<Longrightarrow> concat (read_chunks n bs) = bs"
proof (induction n bs rule: read_chunks.induct)
  case (1 n bs)
  then show ?case by (subst read_chunks.simps) simp
qed

lemma file_hash_bytes [code]:
  "file_hash E f = (case f of None \<Rightarrow> Inl OSError | Some bs \<Rightarrow> Inr (md5_hexdigest E bs))"
  by (simp add: file_hash_def concat_read_chunks split: option.splits)

section \<open>One step of the crawl loop\<close>

lemma crawl_loop_unsupported:
  "lower (suffix (e_name e)) \<notin> SUPPORTED_EXTS \<Longrightarrow>
   crawl_loop E l (e # es) seen recs = crawl_loop E l es seen recs"
  by (simp add: Let_def)

lemma crawl_loop_archive:
  "lower (suffix (e_name e)) \<in> ARCHIVE_EXTS \<Longrightarrow>
   crawl_loop E l (e # es) seen recs =
     (case process_archive E e (path_join (e_dir e) (e_name e))
             (path_join (e_dir e) (e_name e)) of
        Inl x \<Rightarrow> Inl x
      | Inr sub \<Rightarrow> crawl_loop E l es seen (recs @ sub))"
  by (simp add: Let_def ARCHIVE_subset_SUPPORTED del: process_archive.simps)

lemma crawl_loop_file:
  assumes "lower (suffix (e_name e)) \<in> fst ` set PARSERS"
  shows "crawl_loop E l (e # es) seen recs =
     (case e_bytes e of
        None \<Rightarrow> crawl_loop E l es seen recs
      | Some bs \<Rightarrow>
          if md5_hexdigest E bs \<in> seen then crawl_loop E l es seen recs
          else
            (case extract_text E (path_join (e_dir e) (e_name e)) (e_reread e) of
               Inl x \<Rightarrow> Inl x
             | Inr None \<Rightarrow> crawl_loop E l es (insert (md5_hexdigest E bs) seen) recs
             | Inr (Some text) \<Rightarrow>
                 (case e_stat e of
                    None \<Rightarrow> Inl OSError
                  | Some stat \<Rightarrow>
                      crawl_loop E l es (insert (md5_hexdigest E bs) seen)
                        (recs @
                         [\<lparr>file_path = path_join (e_dir e) (e_name e),
                           file_name = e_name e,
                           extension = lstrip_dot (lower (suffix (e_name e))),
                           size_bytes = st_size stat,
                           modified_at = isoformat E (st_mtime stat),
                           source_archive = l,
                           content = strip text,
                           file_hash_val = md5_hexdigest E bs\<rparr>]))))"
  using PARSERS_not_ARCHIVE [OF assms] PARSERS_subset_SUPPORTED [OF assms]
  by (simp add: Let_def file_hash_bytes split: option.splits del: process_archive.simps)

lemma process_archive_zip:
  "lower (suffix p) = ''.zip'' \<Longrightarrow>
   process_archive E a p q =
     (case e_unpacked a of
        None \<Rightarrow> Inr []
      | Some files \<Rightarrow>
          (case crawl_loop E (label_or q p) files {} [] of
             Inl x \<Rightarrow> Inl x
           | Inr rs \<Rightarrow> Inr (map (\<lambda>r. r\<lparr>source_archive := label_or q p\<rparr>) rs)))"
  by (simp add: Let_def unpack_zip_def split: option.splits)

lemma process_archive_other:
  "lower (suffix p) \<noteq> ''.zip'' \<Longrightarrow> lower (suffix p) \<noteq> ''.7z'' \<Longrightarrow>
   process_archive E a p q = Inr []"
  by (simp add: Let_def)

lemmas crawl_steps =
  crawl_loop_unsupported crawl_loop_archive crawl_loop_file process_archive_zip
  process_archive_other

declare crawl_loop.simps(2) [simp del]
declare process_archive.simps [simp del]

section \<open>Values of the concrete environment\<close>

lemma sample_env_sel:
  "md5_hexdigest sample_env = sample_md5"
  "isoformat sample_env t = ''1970-01-01T00:00:00''"
  "md5_hexdigest no_docx_env = sample_md5"
  "isoformat no_docx_env t = ''1970-01-01T00:00:00''"
  "HAS_DOCX no_docx_env = False"
  by (simp_all add: sample_env_def no_docx_env_def)

lemma sample_exts:
  "lower (suffix ''a.txt'') = ''.txt''"
  "lower (suffix ''b.txt'') = ''.txt''"
  "lower (suffix ''c.txt'') = ''.txt''"
  "lower (suffix ''d.txt'') = ''.txt''"
  "lower (suffix ''copy.csv'') = ''.csv''"
  "lower (suffix ''r.docx'') = ''.docx''"
  "lower (suffix ''storage/r.docx'') = ''.docx''"
  "lower (suffix ''b.zip'') = ''.zip''"
  "lower (suffix ''storage/b.zip'') = ''.zip''"
  "lower (suffix ''inner.zip'') = ''.zip''"
  "lower (suffix ''/tmp/t1/inner.zip'') = ''.zip''"
  "lower (suffix ''outer.zip'') = ''.zip''"
  "lower (suffix ''storage/outer.zip'') = ''.zip''"
  "lower (suffix ''old.rar'') = ''.rar''"
  "lower (suffix ''readme.md'') = ''.md''"
  by code_simp+

lemma sample_texts:
  "extract_text sample_env ''storage/a.txt'' (Some [104, 105]) = Inr (Some [104, 105])"
  "extract_text sample_env ''storage/b.txt'' (Some [111, 107]) = Inr (Some [111, 107])"
  "extract_text sample_env ''storage/copy.csv'' (Some [104, 105]) = Inr (Some [104, 105])"
  "extract_text sample_env ''/tmp/t1/c.txt'' (Some [104, 105]) = Inr (Some [104, 105])"
  "extract_text sample_env ''/tmp/t1/d.txt'' (Some [104, 105]) = Inr (Some [104, 105])"
  "extract_text sample_env ''/tmp/t2/c.txt'' (Some [104, 105]) = Inr (Some [104, 105])"
  "extract_text no_docx_env ''storage/r.docx'' (Some [80, 75, 1]) = Inr (Some [])"
  by code_simp+

lemma sample_strings:
  "strip [104, 105] = [104, 105]"
  "strip [111, 107] = [111, 107]"
  "strip [] = []"
  "sample_md5 [104, 105] = ''49f68a5c8493ec2c0bf489821c21fc3b''"
  "sample_md5 [111, 107] = ''444bcb3a3fcf8389296c49467f27e1d6''"
  "sample_md5 [80, 75, 1] = ''4f8e9ca11add80e8e15166418bfee2f6''"
  "lstrip_dot ''.txt'' = ''txt''"
  "lstrip_dot ''.csv'' = ''csv''"
  "lstrip_dot ''.docx'' = ''docx''"
  by (simp_all add: strip_def is_space_def sample_md5_def lstrip_dot_def)

lemmas sample_simps =
  sample_env_sel sample_exts sample_texts sample_strings PARSERS_keys ARCHIVE_EXTS_def
  path_join_def label_or_def sample_stat_def plain_file_def archive_file_def
  crawl_directory_def

section \<open>C10: a supported file that is not an archive always has a parser\<close>

text \<open>
  C10. In \<open>crawl_directory\<close>, a file whose extension passes the check against
  \<open>SUPPORTED_EXTS\<close> and is not in \<open>ARCHIVE_EXTS\<close> has an extension that is a key of
  \<open>PARSERS\<close>, also when \<open>extract_text\<close> takes the extension again from the joined
  path; so \<open>extract_text\<close> never returns \<open>None\<close> there, and the branch
  \<open>if text is None: continue\<close> is never taken.
\<close>

theorem supported_file_has_parser:
  assumes "lower (suffix fname) \<in> SUPPORTED_EXTS"
    and "lower (suffix fname) \<notin> ARCHIVE_EXTS"
  shows "lower (suffix (path_join dirpath fname)) \<in> set (map fst PARSERS) \<and>
         extract_text E (path_join dirpath fname) f \<noteq> Inr None"
proof -
  have "lower (suffix (path_join dirpath fname)) = lower (suffix fname)"
    using assms(1) by (rule ext_path_join)
  moreover have "lower (suffix fname) \<in> set (map fst PARSERS)"
    using assms by (simp add: SUPPORTED_EXTS_def)
  ultimately show ?thesis
    using extract_text_not_unsupported [OF assms] by simp
qed

text \<open>The file \<open>storage/a.txt\<close>.\<close>

theorem supported_file_has_parser_witness:
  "lower (suffix ''a.txt'') \<in> SUPPORTED_EXTS \<and> lower (suffix ''a.txt'') \<notin> ARCHIVE_EXTS \<and>
   lower (suffix (path_join ''storage'' ''a.txt'')) \<in> set (map fst PARSERS) \<and>
   extract_text sample_env (path_join ''storage'' ''a.txt'') (Some [104, 105]) \<noteq> Inr None"
proof -
  have h1: "lower (suffix ''a.txt'') \<in> SUPPORTED_EXTS"
    by (simp add: sample_exts SUPPORTED_EXTS_def PARSERS_keys)
  have h2: "lower (suffix ''a.txt'') \<notin> ARCHIVE_EXTS"
    by (simp add: sample_exts ARCHIVE_EXTS_def)
  show ?thesis
    using h1 h2
      supported_file_has_parser [OF h1 h2, of "''storage''" sample_env "Some [104, 105]"]
    by simp
qed

section \<open>C8: RAR files\<close>

text \<open>
  C8. A file whose extension is \<open>.rar\<close> is classified as an archive;
  \<open>process_archive\<close> returns no record for it without unpacking anything,
  whatever the file holds, and the loop goes on with the remaining files with
  \<open>seen_hashes\<close> and \<open>records\<close> as they were.
\<close>

theorem rar_is_skipped:
  assumes "lower (suffix (e_name e)) = ''.rar''"
  shows "lower (suffix (e_name e)) \<in> ARCHIVE_EXTS \<and>
         process_archive E e (path_join (e_dir e) (e_name e))
           (path_join (e_dir e) (e_name e)) = Inr [] \<and>
         crawl_loop E l (e # es) seen recs = crawl_loop E l es seen recs"
proof -
  have arch: "lower (suffix (e_name e)) \<in> ARCHIVE_EXTS"
    using assms by (simp add: ARCHIVE_EXTS_def)
  then have "lower (suffix (path_join (e_dir e) (e_name e))) = ''.rar''"
    using assms ext_path_join [OF ARCHIVE_subset_SUPPORTED] by simp
  then have none: "process_archive E e (path_join (e_dir e) (e_name e))
                     (path_join (e_dir e) (e_name e)) = Inr []"
    by (simp add: process_archive_other)
  show ?thesis
    using arch none by (simp add: crawl_loop_archive)
qed

text \<open>The archive \<open>storage/old.rar\<close> in front of the text file \<open>storage/b.txt\<close>.\<close>

theorem rar_is_skipped_witness:
  "lower (suffix (e_name rar_entry)) = ''.rar'' \<and>
   process_archive sample_env rar_entry ''storage/old.rar'' ''storage/old.rar'' = Inr [] \<and>
   crawl_directory sample_env [rar_entry, txt_entry] [] =
     crawl_directory sample_env [txt_entry] [] \<and>
   crawl_directory sample_env [txt_entry] [] =
     Inr [(sample_doc ''b.txt'' ''444bcb3a3fcf8389296c49467f27e1d6'')
            \<lparr>content := [111, 107]\<rparr>]"
proof -
  have h: "lower (suffix (e_name rar_entry)) = ''.rar''"
    by (simp add: rar_entry_def plain_file_def sample_exts)
  have t: "crawl_directory sample_env [txt_entry] [] =
     Inr [(sample_doc ''b.txt'' ''444bcb3a3fcf8389296c49467f27e1d6'')
            \<lparr>content := [111, 107]\<rparr>]"
    by (simp add: txt_entry_def crawl_steps sample_simps sample_doc_def)
  show ?thesis
    using h t rar_is_skipped [OF h, of sample_env "[]" "[txt_entry]" "{}" "[]"]
    by (simp add: crawl_directory_def rar_entry_def plain_file_def path_join_def)
qed

section \<open>C9: a crawl without records writes nothing\<close>

text \<open>
  C9. When the crawl returns no record, \<open>main\<close> returns normally and leaves both
  the CSV file and the database as they were; an empty root gives no record, so it
  writes nothing.
\<close>

theorem no_records_no_outputs:
  "(crawl_directory E root [] = Inr [] \<longrightarrow> main E root out = Inr out) \<and>
   crawl_directory E [] [] = Inr [] \<and>
   main E [] out = Inr out"
  by (simp add: main_def crawl_directory_def)

text \<open>A root that holds only \<open>readme.md\<close>, with no output file yet.\<close>

theorem no_records_no_outputs_witness:
  "crawl_directory sample_env md_root [] = Inr [] \<and>
   main sample_env md_root no_outputs = Inr no_outputs"
proof -
  have h: "crawl_directory sample_env md_root [] = Inr []"
    by (simp add: md_root_def crawl_steps sample_simps SUPPORTED_EXTS_def)
  show ?thesis
    using h no_records_no_outputs [of sample_env md_root no_outputs] by simp
qed

section \<open>C4: a failure on one file\<close>

text \<open>
  C4. The claim is that no failure on a single file ends the crawl. The loop catches
  \<open>OSError\<close> around \<open>file_hash\<close> only: a file that was read and is gone when
  \<open>os.stat\<close> is called ends the whole crawl with \<open>OSError\<close>, and the healthy file
  after it is never visited.
\<close>

theorem stat_failure_aborts_crawl:
  "crawl_directory sample_env vanishing_root [] = Inl OSError"
  by (simp add: vanishing_root_def crawl_steps sample_simps)

text \<open>
  The same happens when the file is gone at the moment \<open>parse_txt\<close> opens it:
  \<open>parse_txt\<close> catches \<open>UnicodeDecodeError\<close> only.
\<close>

lemma reopen_failure_aborts_crawl:
  "crawl_directory sample_env reopen_root [] = Inl OSError"
proof -
  have "extract_text sample_env ''storage/a.txt'' None = Inl OSError"
    by code_simp
  then show ?thesis
    by (simp add: reopen_root_def crawl_steps sample_simps)
qed

text \<open>The guarded sibling: a file that cannot be hashed is skipped and the crawl goes on.\<close>

lemma unreadable_file_is_skipped:
  "crawl_directory sample_env unreadable_root [] =
     Inr [(sample_doc ''b.txt'' ''444bcb3a3fcf8389296c49467f27e1d6'')
            \<lparr>content := [111, 107]\<rparr>]"
  by (simp add: unreadable_root_def crawl_steps sample_simps sample_doc_def)

section \<open>C2: a format whose decoder is missing\<close>

text \<open>
  C2. The claim is that a file whose decoder failed to import is reported as
  unsupported and skipped without a record, as the warning logged at the failed
  import announces. On the machine without \<open>python-docx\<close> the table \<open>PARSERS\<close>
  still holds \<open>.docx\<close>, \<open>extract_text\<close> returns the empty string for
  \<open>storage/r.docx\<close> and not \<open>None\<close>, the branch \<open>if text is None: continue\<close> is
  not taken, and the crawl records the file with empty content.
\<close>

theorem missing_decoder_file_is_recorded:
  "\<not> HAS_DOCX no_docx_env \<and>
   lower (suffix ''r.docx'') \<in> set (map fst PARSERS) \<and>
   extract_text no_docx_env (path_join ''storage'' ''r.docx'') (Some [80, 75, 1]) =
     Inr (Some []) \<and>
   crawl_directory no_docx_env docx_root [] =
     Inr [\<lparr>file_path = ''storage/r.docx'', file_name = ''r.docx'', extension = ''docx'',
           size_bytes = 3, modified_at = ''1970-01-01T00:00:00'', source_archive = [],
           content = [], file_hash_val = ''4f8e9ca11add80e8e15166418bfee2f6''\<rparr>]"
  by (simp add: docx_root_def crawl_steps sample_simps)

text \<open>
  The same holds in general: for \<open>.docx\<close>, \<open>.xlsx\<close>, \<open>.xls\<close> and \<open>.pdf\<close>
  without the library, \<open>extract_text\<close> gives the empty string.
\<close>

lemma extract_text_without_decoder:
  assumes "(lower (suffix p) = ''.docx'' \<and> \<not> HAS_DOCX E) \<or>
           (lower (suffix p) \<in> {''.xlsx'', ''.xls''} \<and> \<not> HAS_XLSX E) \<or>
           (lower (suffix p) = ''.pdf'' \<and> \<not> HAS_PDF E)"
  shows "extract_text E p f = Inr (Some [])"
  using assms
  by (auto simp: extract_text_def PARSERS_def parse_docx_def parse_xlsx_def parse_pdf_def)

text \<open>
  The sibling path does skip: without \<open>py7zr\<close> a \<open>.7z\<close> archive gives no record,
  as its warning says.
\<close>

lemma missing_7z_is_skipped:
  assumes "lower (suffix p) = ''.7z''" and "\<not> HAS_7Z E"
  shows "process_archive E a p q = Inr []"
  using assms by (simp add: process_archive.simps Let_def unpack_7z_def)

section \<open>C6: plain text is decoded by the first encoding that accepts it\<close>

lemma extract_text_txt:
  assumes "lower (suffix p) \<in> {''.txt'', ''.csv''}"
  shows "extract_text E p f =
           (case parse_txt E p f of Inl e \<Rightarrow> Inl e | Inr text \<Rightarrow> Inr (Some text))"
  using assms by (auto simp: extract_text_def PARSERS_def)

text \<open>
  C6. For a \<open>.txt\<close> or \<open>.csv\<close> file that can be opened, extraction goes through
  the three encodings UTF-8, CP1251, Latin-1 in this order and returns the text read
  with the first one that decodes the bytes; for every byte string there is such an
  encoding, so a string is always returned.
\<close>

theorem text_decoding_order:
  assumes "lower (suffix p) \<in> {''.txt'', ''.csv''}"
  shows "\<exists>i < length [UTF8, CP1251, LATIN1]. \<exists>s.
           decode E ([UTF8, CP1251, LATIN1] ! i) bs = Some s \<and>
           (\<forall>j < i. decode E ([UTF8, CP1251, LATIN1] ! j) bs = None) \<and>
           extract_text E p (Some bs) = Inr (Some (universal_newlines s))"
proof (cases "decode_utf8 E bs")
  case (Some s)
  then have "decode E ([UTF8, CP1251, LATIN1] ! 0) bs = Some s \<and>
             (\<forall>j < (0::nat). decode E ([UTF8, CP1251, LATIN1] ! j) bs = None) \<and>
             extract_text E p (Some bs) = Inr (Some (universal_newlines s))"
    by (simp add: extract_text_txt [OF assms] parse_txt_def)
  then show ?thesis by (intro exI [of _ "0::nat"] conjI exI [of _ s]) simp_all
next
  case utf8: None
  show ?thesis
  proof (cases "decode_cp1251 E bs")
    case (Some s)
    then have "decode E ([UTF8, CP1251, LATIN1] ! 1) bs = Some s \<and>
             (\<forall>j < (1::nat). decode E ([UTF8, CP1251, LATIN1] ! j) bs = None) \<and>
             extract_text E p (Some bs) = Inr (Some (universal_newlines s))"
      using utf8 by (simp add: extract_text_txt [OF assms] parse_txt_def)
    then show ?thesis by (intro exI [of _ "1::nat"] conjI exI [of _ s]) simp_all
  next
    case None
    have "\<forall>j < (2::nat). decode E ([UTF8, CP1251, LATIN1] ! j) bs = None"
      using utf8 None by (auto simp: less_Suc_eq numeral_2_eq_2)
    then have "decode E ([UTF8, CP1251, LATIN1] ! 2) bs = Some (decode_latin1 bs) \<and>
             (\<forall>j < (2::nat). decode E ([UTF8, CP1251, LATIN1] ! j) bs = None) \<and>
             extract_text E p (Some bs) =
               Inr (Some (universal_newlines (decode_latin1 bs)))"
      using utf8 None by (simp add: extract_text_txt [OF assms] parse_txt_def)
    then show ?thesis
      by (intro exI [of _ "2::nat"] conjI exI [of _ "decode_latin1 bs"]) simp_all
  qed
qed

lemma sample_decodes:
  "decode_utf8 sample_env [152] = None"
  "decode_cp1251 sample_env [152] = None"
  "decode_latin1 [152] = [152]"
  by (simp_all add: sample_env_def sample_utf8_def sample_cp1251_def decode_latin1_def)

text \<open>
  The single byte 152 is no UTF-8 and is undefined in CP1251: the file \<open>a.txt\<close>
  holding it is read as Latin-1.
\<close>

theorem text_decoding_order_witness:
  "lower (suffix ''a.txt'') \<in> {''.txt'', ''.csv''} \<and>
   decode sample_env UTF8 [152] = None \<and>
   decode sample_env CP1251 [152] = None \<and>
   decode sample_env LATIN1 [152] = Some [152] \<and>
   extract_text sample_env ''a.txt'' (Some [152]) = Inr (Some [152])"
proof -
  have h: "lower (suffix ''a.txt'') \<in> {''.txt'', ''.csv''}"
    by (simp add: sample_exts)
  obtain i s where i: "i < length [UTF8, CP1251, LATIN1]"
    and s: "decode sample_env ([UTF8, CP1251, LATIN1] ! i) [152] = Some s"
    and r: "extract_text sample_env ''a.txt'' (Some [152]) =
              Inr (Some (universal_newlines s))"
    using text_decoding_order [OF h, of sample_env "[152]"] by blast
  from i have "i = 0 \<or> i = 1 \<or> i = 2" by auto
  with s have "s = [152]"
    by (auto simp: sample_decodes)
  with r h show ?thesis by (simp add: sample_decodes)
qed

section \<open>C7: the lines of a workbook\<close>

lemma xlsx_rows_loop_filter:
  "xlsx_rows_loop parts rows = parts @ filter (\<lambda>l. strip l \<noteq> []) (map row_str rows)"
  by (induction rows arbitrary: parts) simp_all

lemma xlsx_sheets_loop_filter:
  "xlsx_sheets_loop parts wb =
     parts @ filter (\<lambda>l. strip l \<noteq> []) (map row_str (all_rows wb))"
  by (induction wb arbitrary: parts) (simp_all add: all_rows_def xlsx_rows_loop_filter)

lemma row_str_all_None: "\<forall>c\<in>set row. c = None \<Longrightarrow> row_str row = []"
  by (induction row) (auto simp: row_str_def List.map_filter_simps)

lemma strip_Nil: "strip [] = []"
  by (simp add: strip_def)

lemma sample_rows:
  "row_str [Some [65], None, Some [66]] = [65, 32, 124, 32, 66]"
  "row_str [None, None] = []"
  "row_str [Some [32]] = [32]"
  "row_str [Some [67]] = [67]"
  by (simp_all add: row_str_def List.map_filter_simps bar_sep_def)

lemma sample_strips:
  "strip [65, 32, 124, 32, 66] = [65, 32, 124, 32, 66]"
  "strip [32] = []"
  "strip [67] = [67]"
  by (simp_all add: strip_def is_space_def)

text \<open>
  C7 as stated fails in one direction of its ``if and only if'': the third row of
  the first sheet of the sample workbook has a cell that is not \<open>None\<close>, the text
  of one space, and its line is left out.
\<close>

theorem blank_row_counterexample:
  "xlsx_sheets sample_env ''storage/t.xlsx'' [80, 75, 2] = Some sample_workbook \<and>
   [Some [32]] \<in> set (all_rows sample_workbook) \<and>
   Some [32] \<in> set [Some [32]] \<and> Some [32] \<noteq> (None :: cell) \<and>
   row_str [Some [32]] = [32] \<and>
   xlsx_sheets_loop [] sample_workbook = [[65, 32, 124, 32, 66], [67]] \<and>
   parse_xlsx sample_env ''storage/t.xlsx'' (Some [80, 75, 2]) =
     Inr [65, 32, 124, 32, 66, 10, 67]"
  by (simp add: sample_env_def sample_workbook_def all_rows_def parse_xlsx_def sample_rows
      sample_strips strip_Nil newline_def)

text \<open>
  C7, amended. For a workbook that loads, extraction goes through the sheets in
  workbook order and the rows in order, joins the cells of a row that are not \<open>None\<close>
  with \<open>" | "\<close>, keeps the joined line if and only if it is not blank after
  \<open>strip\<close>, and joins the kept lines with newlines. A kept line comes from a row with
  a cell that is not \<open>None\<close>, and the line of a row whose only cell that is not
  \<open>None\<close> holds blank text is not kept.
\<close>

theorem xlsx_lines:
  assumes "HAS_XLSX E" and "xlsx_sheets E p bs = Some wb"
  shows "parse_xlsx E p (Some bs) =
           Inr (join newline (filter (\<lambda>l. strip l \<noteq> []) (map row_str (all_rows wb)))) \<and>
         (\<forall>row \<in> set (all_rows wb).
            strip (row_str row) \<noteq> [] \<longrightarrow> (\<exists>c\<in>set row. c \<noteq> None)) \<and>
         (\<forall>row s. List.map_filter (\<lambda>c. c) row = [s] \<and> strip s = [] \<longrightarrow>
            row_str row \<notin> set (filter (\<lambda>l. strip l \<noteq> []) (map row_str (all_rows wb))))"
proof (intro conjI ballI allI impI)
  show "parse_xlsx E p (Some bs) =
          Inr (join newline (filter (\<lambda>l. strip l \<noteq> []) (map row_str (all_rows wb))))"
    using assms by (simp add: parse_xlsx_def xlsx_sheets_loop_filter)
next
  fix row
  assume "strip (row_str row) \<noteq> []"
  then have "row_str row \<noteq> []"
    using strip_Nil by auto
  then have "\<not> (\<forall>c\<in>set row. c = None)"
    using row_str_all_None by blast
  then show "\<exists>c\<in>set row. c \<noteq> None"
    by blast
next
  fix row s
  assume "List.map_filter (\<lambda>c. c) row = [s] \<and> strip s = []"
  then have "strip (row_str row) = []"
    by (simp add: row_str_def)
  then show "row_str row \<notin> set (filter (\<lambda>l. strip l \<noteq> []) (map row_str (all_rows wb)))"
    by simp
qed

text \<open>
  The sample workbook at \<open>storage/t.xlsx\<close> gives the two lines \<open>A | B\<close> and \<open>C\<close>;
  the line of its row with the single space is not among them.
\<close>

theorem xlsx_lines_witness:
  "HAS_XLSX sample_env \<and>
   xlsx_sheets sample_env ''storage/t.xlsx'' [80, 75, 2] = Some sample_workbook \<and>
   parse_xlsx sample_env ''storage/t.xlsx'' (Some [80, 75, 2]) =
     Inr [65, 32, 124, 32, 66, 10, 67] \<and>
   List.map_filter (\<lambda>c. c) [Some [32]] = [[32 :: nat]] \<and> strip [32] = [] \<and>
   row_str [Some [32]] \<notin> set [[65, 32, 124, 32, 66], [67]]"
proof -
  have h1: "HAS_XLSX sample_env" by (simp add: sample_env_def)
  have h2: "xlsx_sheets sample_env ''storage/t.xlsx'' [80, 75, 2] = Some sample_workbook"
    by (simp add: sample_env_def)
  have lines: "filter (\<lambda>l. strip l \<noteq> []) (map row_str (all_rows sample_workbook)) =
          [[65, 32, 124, 32, 66], [67]]"
    by (simp add: sample_workbook_def all_rows_def sample_rows sample_strips strip_Nil)
  have h3: "List.map_filter (\<lambda>c. c) [Some [32]] = [[32 :: nat]] \<and> strip [32] = []"
    by (simp add: List.map_filter_simps sample_strips)
  note inst = xlsx_lines [OF h1 h2]
  have "row_str [Some [32]] \<notin>
          set (filter (\<lambda>l. strip l \<noteq> []) (map row_str (all_rows sample_workbook)))"
    using inst h3 by blast
  then show ?thesis
    using h1 h2 h3 inst lines by (simp add: newline_def)
qed

section \<open>What a returned crawl did at each file\<close>

lemma process_archive_7z:
  "lower (suffix p) = ''.7z'' \<Longrightarrow>
   process_archive E a p q =
     (case unpack_7z E a of
        None \<Rightarrow> Inr []
      | Some files \<Rightarrow>
          (case crawl_loop E (label_or q p) files {} [] of
             Inl x \<Rightarrow> Inl x
           | Inr rs \<Rightarrow> Inr (map (\<lambda>r. r\<lparr>source_archive := label_or q p\<rparr>) rs)))"
  by (simp add: process_archive.simps Let_def split: option.splits)

lemma process_archive_label:
  "process_archive E a p q = Inr rs \<Longrightarrow> r \<in> set rs \<Longrightarrow> source_archive r = label_or q p"
  by (auto simp: process_archive.simps Let_def split: if_splits option.splits sum.splits)

lemma supported_cases:
  obtains (unsupported) "ext \<notin> SUPPORTED_EXTS"
  | (archive) "ext \<in> ARCHIVE_EXTS"
  | (parsed) "ext \<in> fst ` set PARSERS"
  by (auto simp: SUPPORTED_EXTS_def)

lemma crawl_loop_Cons_Inr:
  assumes "crawl_loop E l (e # es) seen recs = Inr rs"
  obtains
    (skipped) "crawl_loop E l es seen recs = Inr rs"
      "lower (suffix (e_name e)) \<notin> ARCHIVE_EXTS"
      "\<And>bs. lower (suffix (e_name e)) \<in> fst ` set PARSERS \<Longrightarrow> e_bytes e = Some bs \<Longrightarrow>
         md5_hexdigest E bs \<in> seen"
  | (archive) sub where "lower (suffix (e_name e)) \<in> ARCHIVE_EXTS"
      "process_archive E e (path_join (e_dir e) (e_name e)) (path_join (e_dir e) (e_name e)) = Inr sub"
      "crawl_loop E l es seen (recs @ sub) = Inr rs"
  | (recorded) bs tx and stat :: stat_result where "lower (suffix (e_name e)) \<in> fst ` set PARSERS"
      "e_bytes e = Some bs" "md5_hexdigest E bs \<notin> seen"
      "crawl_loop E l es (insert (md5_hexdigest E bs) seen)
         (recs @ [\<lparr>file_path = path_join (e_dir e) (e_name e),
                   file_name = e_name e,
                   extension = lstrip_dot (lower (suffix (e_name e))),
                   size_bytes = st_size stat,
                   modified_at = isoformat E (st_mtime stat),
                   source_archive = l,
                   content = strip tx,
                   file_hash_val = md5_hexdigest E bs\<rparr>]) = Inr rs"
proof (cases "lower (suffix (e_name e))" rule: supported_cases)
  case unsupported
  then have "lower (suffix (e_name e)) \<notin> ARCHIVE_EXTS" "lower (suffix (e_name e)) \<notin> fst ` set PARSERS"
    using ARCHIVE_subset_SUPPORTED PARSERS_subset_SUPPORTED by blast+
  then show ?thesis
    using assms unsupported skipped by (simp add: crawl_loop_unsupported)
next
  case archive
  then show ?thesis
    using assms that(2) by (auto simp: crawl_loop_archive split: sum.splits)
next
  case parsed
  note na = PARSERS_not_ARCHIVE [OF parsed]
  have nn: "extract_text E (path_join (e_dir e) (e_name e)) f \<noteq> Inr None" for f
    using extract_text_not_unsupported [OF PARSERS_subset_SUPPORTED [OF parsed] na] .
  show ?thesis
  proof (cases "e_bytes e")
    case None
    then show ?thesis using assms parsed na skipped by (simp add: crawl_loop_file)
  next
    case (Some bs)
    show ?thesis
    proof (cases "md5_hexdigest E bs \<in> seen")
      case True
      then show ?thesis using assms parsed na Some skipped by (simp add: crawl_loop_file)
    next
      case False
      let ?fp = "path_join (e_dir e) (e_name e)"
      from assms obtain tx where tx: "extract_text E ?fp (e_reread e) = Inr (Some tx)"
        using parsed Some False nn [of "e_reread e"]
        by (auto simp: crawl_loop_file split: sum.splits option.splits)
      from assms obtain stat where stat: "e_stat e = Some stat"
        using parsed Some False tx
        by (auto simp: crawl_loop_file split: option.splits)
      show ?thesis
        using assms parsed Some False tx stat
        by (intro recorded [OF parsed Some False, of stat tx]) (simp add: crawl_loop_file)
    qed
  qed
qed

lemma crawl_loop_prefix:
  "crawl_loop E l es seen recs = Inr rs \<Longrightarrow> \<exists>new. rs = recs @ new"
proof (induction es arbitrary: seen recs)
  case Nil
  then show ?case by simp
next
  case (Cons e es)
  from Cons.prems show ?case
  proof (cases rule: crawl_loop_Cons_Inr)
    case skipped
    then show ?thesis using Cons.IH by blast
  next
    case (archive sub)
    then show ?thesis using Cons.IH [of seen "recs @ sub"] by auto
  next
    case (recorded bs tx stat)
    then show ?thesis using Cons.IH [OF recorded(4)] by auto
  qed
qed

lemma crawl_loop_sub_records:
  assumes "crawl_loop E l es seen recs = Inr rs" and "inner \<in> set es"
    and "lower (suffix (e_name inner)) \<in> ARCHIVE_EXTS"
    and "process_archive E inner (path_join (e_dir inner) (e_name inner))
           (path_join (e_dir inner) (e_name inner)) = Inr sub"
  shows "set sub \<subseteq> set rs"
  using assms(1,2)
proof (induction es arbitrary: seen recs)
  case Nil
  then show ?case by simp
next
  case (Cons e es)
  from Cons.prems(1) show ?case
  proof (cases rule: crawl_loop_Cons_Inr)
    case skipped
    then have "inner \<noteq> e" using assms(3) by auto
    then show ?thesis using Cons.IH [OF skipped(1)] Cons.prems(2) by simp
  next
    case (archive sub')
    show ?thesis
    proof (cases "inner = e")
      case True
      then have "sub' = sub" using archive(2) assms(4) by simp
      then show ?thesis using crawl_loop_prefix [OF archive(3)] by auto
    next
      case False
      then show ?thesis using Cons.IH [OF archive(3)] Cons.prems(2) by simp
    qed
  next
    case (recorded bs tx stat)
    then have "inner \<noteq> e" using assms(3) PARSERS_not_ARCHIVE by auto
    then show ?thesis using Cons.IH [OF recorded(4)] Cons.prems(2) by simp
  qed
qed

section \<open>C3: the label of records from nested archives\<close>

text \<open>
  C3. In what a call of \<open>process_archive\<close> returns, every record carries the one
  label of that call, \<open>parent_archive or archive_path\<close>. This holds for the records
  that come from an archive found inside the unpacked archive too: the inner call
  returns them labelled with the inner archive's own path, and the enclosing call
  returns each of them with that label replaced by its own.
\<close>

theorem nested_archive_label:
  assumes "process_archive E a archive_path parent_archive = Inr rs"
  shows "(\<forall>r\<in>set rs. source_archive r = label_or parent_archive archive_path) \<and>
         (\<forall>files inner sub.
            ((lower (suffix archive_path) = ''.zip'' \<and> unpack_zip a = Some files) \<or>
             (lower (suffix archive_path) = ''.7z'' \<and> unpack_7z E a = Some files)) \<and>
            inner \<in> set files \<and>
            lower (suffix (e_name inner)) \<in> ARCHIVE_EXTS \<and>
            process_archive E inner (path_join (e_dir inner) (e_name inner))
              (path_join (e_dir inner) (e_name inner)) = Inr sub
            \<longrightarrow> (\<forall>r\<in>set sub.
                   r\<lparr>source_archive := label_or parent_archive archive_path\<rparr> \<in> set rs))"
proof (intro conjI allI impI ballI)
  fix r assume "r \<in> set rs"
  then show "source_archive r = label_or parent_archive archive_path"
    using assms process_archive_label by blast
next
  fix files inner sub r
  assume h: "((lower (suffix archive_path) = ''.zip'' \<and> unpack_zip a = Some files) \<or>
             (lower (suffix archive_path) = ''.7z'' \<and> unpack_7z E a = Some files)) \<and>
            inner \<in> set files \<and>
            lower (suffix (e_name inner)) \<in> ARCHIVE_EXTS \<and>
            process_archive E inner (path_join (e_dir inner) (e_name inner))
              (path_join (e_dir inner) (e_name inner)) = Inr sub"
    and r: "r \<in> set sub"
  let ?L = "label_or parent_archive archive_path"
  from h have "process_archive E a archive_path parent_archive =
      (case crawl_loop E ?L files {} [] of
         Inl x \<Rightarrow> Inl x
       | Inr rs \<Rightarrow> Inr (map (\<lambda>r. r\<lparr>source_archive := ?L\<rparr>) rs))"
    by (auto simp: process_archive_zip process_archive_7z unpack_zip_def)
  with assms obtain rs0 where rs0: "crawl_loop E ?L files {} [] = Inr rs0"
    and rs: "rs = map (\<lambda>r. r\<lparr>source_archive := ?L\<rparr>) rs0"
    by (auto split: sum.splits)
  have "set sub \<subseteq> set rs0"
    using crawl_loop_sub_records [OF rs0] h by blast
  with r rs show "r\<lparr>source_archive := ?L\<rparr> \<in> set rs"
    by auto
qed


text \<open>
  The archive \<open>storage/outer.zip\<close> holds \<open>inner.zip\<close>, which holds \<open>c.txt\<close>: the
  record of \<open>c.txt\<close> leaves the inner call labelled \<open>/tmp/t1/inner.zip\<close> and the
  outer call labelled \<open>storage/outer.zip\<close>.
\<close>

theorem nested_archive_label_witness:
  "process_archive sample_env outer_zip ''storage/outer.zip'' ''storage/outer.zip'' =
     Inr [(sample_doc ''c.txt'' ''49f68a5c8493ec2c0bf489821c21fc3b'')
            \<lparr>file_path := ''/tmp/t2/c.txt'', source_archive := ''storage/outer.zip''\<rparr>] \<and>
   lower (suffix ''storage/outer.zip'') = ''.zip'' \<and>
   unpack_zip outer_zip = Some [inner_zip] \<and>
   lower (suffix (e_name inner_zip)) \<in> ARCHIVE_EXTS \<and>
   process_archive sample_env inner_zip ''/tmp/t1/inner.zip'' ''/tmp/t1/inner.zip'' =
     Inr [(sample_doc ''c.txt'' ''49f68a5c8493ec2c0bf489821c21fc3b'')
            \<lparr>file_path := ''/tmp/t2/c.txt'', source_archive := ''/tmp/t1/inner.zip''\<rparr>] \<and>
   source_archive
     ((sample_doc ''c.txt'' ''49f68a5c8493ec2c0bf489821c21fc3b'')
        \<lparr>file_path := ''/tmp/t2/c.txt'', source_archive := ''storage/outer.zip''\<rparr>) =
     ''storage/outer.zip'' \<and>
   (sample_doc ''c.txt'' ''49f68a5c8493ec2c0bf489821c21fc3b'')
     \<lparr>file_path := ''/tmp/t2/c.txt'', source_archive := ''/tmp/t1/inner.zip'',
       source_archive := ''storage/outer.zip''\<rparr> \<in>
     set [(sample_doc ''c.txt'' ''49f68a5c8493ec2c0bf489821c21fc3b'')
            \<lparr>file_path := ''/tmp/t2/c.txt'', source_archive := ''storage/outer.zip''\<rparr>]"
proof -
  let ?d = "sample_doc ''c.txt'' ''49f68a5c8493ec2c0bf489821c21fc3b''"
  let ?in = "?d\<lparr>file_path := ''/tmp/t2/c.txt'', source_archive := ''/tmp/t1/inner.zip''\<rparr>"
  let ?out = "?d\<lparr>file_path := ''/tmp/t2/c.txt'', source_archive := ''storage/outer.zip''\<rparr>"
  have sel: "e_name inner_zip = ''inner.zip''" "e_dir inner_zip = ''/tmp/t1''"
    by (simp_all add: inner_zip_def archive_file_def)
  have inner: "process_archive sample_env inner_zip ''/tmp/t1/inner.zip''
                 ''/tmp/t1/inner.zip'' = Inr [?in]"
    by (simp add: inner_zip_def crawl_steps sample_simps sample_doc_def)
  have outer: "process_archive sample_env outer_zip ''storage/outer.zip''
                 ''storage/outer.zip'' = Inr [?out]"
    by (simp add: outer_zip_def crawl_steps sample_simps sample_doc_def sel inner)
  have zip: "lower (suffix ''storage/outer.zip'') = ''.zip''"
    by (simp add: sample_exts)
  have unp: "unpack_zip outer_zip = Some [inner_zip]"
    by (simp add: unpack_zip_def outer_zip_def archive_file_def)
  have arch: "lower (suffix (e_name inner_zip)) \<in> ARCHIVE_EXTS"
    by (simp add: sel sample_exts ARCHIVE_EXTS_def)
  have inner': "process_archive sample_env inner_zip
                  (path_join (e_dir inner_zip) (e_name inner_zip))
                  (path_join (e_dir inner_zip) (e_name inner_zip)) = Inr [?in]"
    using inner by (simp add: sel path_join_def)
  note inst = nested_archive_label [OF outer]
  have all: "\<forall>r \<in> set [?out].
               source_archive r = label_or ''storage/outer.zip'' ''storage/outer.zip''"
    using inst by blast
  have "(lower (suffix ''storage/outer.zip'') = ''.zip'' \<and>
           unpack_zip outer_zip = Some [inner_zip] \<or>
         lower (suffix ''storage/outer.zip'') = ''.7z'' \<and>
           unpack_7z sample_env outer_zip = Some [inner_zip]) \<and>
        inner_zip \<in> set [inner_zip] \<and>
        lower (suffix (e_name inner_zip)) \<in> ARCHIVE_EXTS \<and>
        process_archive sample_env inner_zip
          (path_join (e_dir inner_zip) (e_name inner_zip))
          (path_join (e_dir inner_zip) (e_name inner_zip)) = Inr [?in]"
    using zip unp arch inner' by simp
  then have nested: "\<forall>r \<in> set [?in].
      r\<lparr>source_archive := label_or ''storage/outer.zip'' ''storage/outer.zip''\<rparr> \<in> set [?out]"
    using inst by blast
  show ?thesis
    using inner outer zip unp arch all nested by (simp add: label_or_def)
qed

section \<open>C1: one record for one content\<close>

lemma crawl_loop_own_step:
  assumes "lower (suffix (e_name e)) \<notin> ARCHIVE_EXTS"
  shows "\<exists>res. \<forall>es recs. crawl_loop E l (e # es) seen recs =
           (case res of
              None \<Rightarrow> Inl OSError
            | Some (seen', add) \<Rightarrow> crawl_loop E l es seen' (recs @ add))"
proof (cases "lower (suffix (e_name e))" rule: supported_cases)
  case unsupported
  then have "\<forall>es recs. crawl_loop E l (e # es) seen recs =
           (case Some (seen, []) of
              None \<Rightarrow> Inl OSError
            | Some (seen', add) \<Rightarrow> crawl_loop E l es seen' (recs @ add))"
    by (simp add: crawl_loop_unsupported)
  then show ?thesis by blast
next
  case archive
  with assms show ?thesis by simp
next
  case parsed
  let ?fp = "path_join (e_dir e) (e_name e)"
  let ?P = "\<lambda>res. \<forall>es recs. crawl_loop E l (e # es) seen recs =
           (case res of
              None \<Rightarrow> Inl OSError
            | Some (seen', add) \<Rightarrow> crawl_loop E l es seen' (recs @ add))"
  show ?thesis
  proof (cases "e_bytes e")
    case None
    then have "?P (Some (seen, []))"
      using parsed by (simp add: crawl_loop_file)
    then show ?thesis by blast
  next
    case (Some bs)
    show ?thesis
    proof (cases "md5_hexdigest E bs \<in> seen")
      case True
      then have "?P (Some (seen, []))"
        using parsed Some by (simp add: crawl_loop_file)
      then show ?thesis by blast
    next
      case False
      show ?thesis
      proof (cases "extract_text E ?fp (e_reread e)")
        case (Inl x)
        then have "?P None"
          using parsed Some False by (cases x) (simp add: crawl_loop_file)
        then show ?thesis by blast
      next
        case (Inr r)
        show ?thesis
        proof (cases r)
          case None
          then have "?P (Some (insert (md5_hexdigest E bs) seen, []))"
            using parsed Some False Inr by (simp add: crawl_loop_file)
          then show ?thesis by blast
        next
          case tx: (Some tx)
          show ?thesis
          proof (cases "e_stat e")
            case None
            then have "?P None"
              using parsed Some False Inr tx by (simp add: crawl_loop_file)
            then show ?thesis by blast
          next
            case st: (Some stat)
            have "?P (Some (insert (md5_hexdigest E bs) seen,
                     [\<lparr>file_path = ?fp,
                       file_name = e_name e,
                       extension = lstrip_dot (lower (suffix (e_name e))),
                       size_bytes = st_size stat,
                       modified_at = isoformat E (st_mtime stat),
                       source_archive = l,
                       content = strip tx,
                       file_hash_val = md5_hexdigest E bs\<rparr>]))"
              using parsed Some False Inr tx st by (simp add: crawl_loop_file)
            then show ?thesis by blast
          qed
        qed
      qed
    qed
  qed
qed

lemma crawl_loop_split:
  assumes "crawl_loop E l es seen recs = Inr rs"
  shows "\<exists>own new. rs = recs @ new \<and>
           (\<forall>recs'. crawl_loop E l (own_files es) seen recs' = Inr (recs' @ own)) \<and>
           set new = set own \<union>
             (\<Union>a \<in> set es \<inter> {a. lower (suffix (e_name a)) \<in> ARCHIVE_EXTS}.
                set (archive_records E a))"
  using assms
proof (induction es arbitrary: seen recs)
  case Nil
  then show ?case by (simp add: own_files_def)
next
  case (Cons e es)
  show ?case
  proof (cases "lower (suffix (e_name e)) \<in> ARCHIVE_EXTS")
    case True
    let ?fp = "path_join (e_dir e) (e_name e)"
    from Cons.prems obtain sub where sub: "process_archive E e ?fp ?fp = Inr sub"
      and rest: "crawl_loop E l es seen (recs @ sub) = Inr rs"
      using True by (auto simp: crawl_loop_archive split: sum.splits)
    obtain own new where rs: "rs = (recs @ sub) @ new"
      and own: "\<forall>recs'. crawl_loop E l (own_files es) seen recs' = Inr (recs' @ own)"
      and new: "set new = set own \<union>
             (\<Union>a \<in> set es \<inter> {a. lower (suffix (e_name a)) \<in> ARCHIVE_EXTS}.
                set (archive_records E a))"
      using Cons.IH [OF rest] by blast
    have ar: "archive_records E e = sub"
      using sub by (simp add: archive_records_def)
    have "rs = recs @ (sub @ new)" using rs by simp
    moreover have "\<forall>recs'. crawl_loop E l (own_files (e # es)) seen recs' = Inr (recs' @ own)"
      using own True by (simp add: own_files_def)
    moreover have "set (sub @ new) = set own \<union>
             (\<Union>a \<in> set (e # es) \<inter> {a. lower (suffix (e_name a)) \<in> ARCHIVE_EXTS}.
                set (archive_records E a))"
      using new True ar by auto
    ultimately show ?thesis by blast
  next
    case False
    obtain res where res: "\<forall>es recs. crawl_loop E l (e # es) seen recs =
           (case res of
              None \<Rightarrow> Inl OSError
            | Some (seen', add) \<Rightarrow> crawl_loop E l es seen' (recs @ add))"
      using crawl_loop_own_step [OF False] by blast
    with Cons.prems obtain seen' add where r: "res = Some (seen', add)"
      by (cases res) auto
    have rest: "crawl_loop E l es seen' (recs @ add) = Inr rs"
      using Cons.prems res r by simp
    obtain own new where rs: "rs = (recs @ add) @ new"
      and own: "\<forall>recs'. crawl_loop E l (own_files es) seen' recs' = Inr (recs' @ own)"
      and new: "set new = set own \<union>
             (\<Union>a \<in> set es \<inter> {a. lower (suffix (e_name a)) \<in> ARCHIVE_EXTS}.
                set (archive_records E a))"
      using Cons.IH [OF rest] by blast
    have "rs = recs @ (add @ new)" using rs by simp
    moreover have "\<forall>recs'. crawl_loop E l (own_files (e # es)) seen recs' =
                     Inr (recs' @ (add @ own))"
      using own False res r by (simp add: own_files_def)
    moreover have "set (add @ new) = set (add @ own) \<union>
             (\<Union>a \<in> set (e # es) \<inter> {a. lower (suffix (e_name a)) \<in> ARCHIVE_EXTS}.
                set (archive_records E a))"
      using new False by auto
    ultimately show ?thesis by blast
  qed
qed

lemma crawl_loop_own_distinct:
  assumes "crawl_loop E l es seen recs = Inr rs"
    and "\<forall>e\<in>set es. lower (suffix (e_name e)) \<notin> ARCHIVE_EXTS"
    and "seen = set (map file_hash_val recs)"
    and "distinct (map file_hash_val recs)"
  shows "distinct (map file_hash_val rs) \<and>
         seen \<subseteq> set (map file_hash_val rs) \<and>
         (\<forall>e\<in>set es. \<forall>bs. lower (suffix (e_name e)) \<in> fst ` set PARSERS \<and> e_bytes e = Some bs
            \<longrightarrow> md5_hexdigest E bs \<in> set (map file_hash_val rs))"
  using assms
proof (induction es arbitrary: seen recs)
  case Nil
  then show ?case by simp
next
  case (Cons e es)
  have na: "\<forall>e\<in>set es. lower (suffix (e_name e)) \<notin> ARCHIVE_EXTS"
    using Cons.prems(2) by simp
  from Cons.prems(1) show ?case
  proof (cases rule: crawl_loop_Cons_Inr)
    case skipped
    have IH: "distinct (map file_hash_val rs) \<and>
         seen \<subseteq> set (map file_hash_val rs) \<and>
         (\<forall>e\<in>set es. \<forall>bs. lower (suffix (e_name e)) \<in> fst ` set PARSERS \<and> e_bytes e = Some bs
            \<longrightarrow> md5_hexdigest E bs \<in> set (map file_hash_val rs))"
      using Cons.IH [OF skipped(1) na Cons.prems(3,4)] .
    moreover have "md5_hexdigest E bs \<in> set (map file_hash_val rs)"
      if "lower (suffix (e_name e)) \<in> fst ` set PARSERS" "e_bytes e = Some bs" for bs
      using skipped(3) [OF that] IH by blast
    ultimately show ?thesis by auto
  next
    case (archive sub)
    then show ?thesis using Cons.prems(2) by simp
  next
    case (recorded bs tx stat)
    let ?d = "\<lparr>file_path = path_join (e_dir e) (e_name e),
                   file_name = e_name e,
                   extension = lstrip_dot (lower (suffix (e_name e))),
                   size_bytes = st_size stat,
                   modified_at = isoformat E (st_mtime stat),
                   source_archive = l,
                   content = strip tx,
                   file_hash_val = md5_hexdigest E bs\<rparr>"
    have s: "insert (md5_hexdigest E bs) seen = set (map file_hash_val (recs @ [?d]))"
      using Cons.prems(3) by simp
    have d: "distinct (map file_hash_val (recs @ [?d]))"
      using Cons.prems(3,4) recorded(3) by simp
    have IH: "distinct (map file_hash_val rs) \<and>
         insert (md5_hexdigest E bs) seen \<subseteq> set (map file_hash_val rs) \<and>
         (\<forall>e\<in>set es. \<forall>bs. lower (suffix (e_name e)) \<in> fst ` set PARSERS \<and> e_bytes e = Some bs
            \<longrightarrow> md5_hexdigest E bs \<in> set (map file_hash_val rs))"
      using Cons.IH [OF recorded(4) na s d] .
    then show ?thesis using recorded(2) by auto
  qed
qed

lemma distinct_count_one:
  "distinct (map f xs) \<Longrightarrow> h \<in> set (map f xs) \<Longrightarrow> length (filter (\<lambda>x. f x = h) xs) = 1"
proof (induction xs)
  case Nil
  then show ?case by simp
next
  case (Cons x xs)
  show ?case
  proof (cases "f x = h")
    case True
    then have "h \<notin> f ` set xs"
      using Cons.prems(1) by simp
    then have "filter (\<lambda>x. f x = h) xs = []"
      by (auto simp: filter_empty_conv)
    then show ?thesis using True by simp
  next
    case False
    then show ?thesis using Cons by auto
  qed
qed

lemma archive_records_unpacked:
  assumes "process_archive E a p p = Inr sub"
    and "(lower (suffix p) = ''.zip'' \<and> unpack_zip a = Some files) \<or>
         (lower (suffix p) = ''.7z'' \<and> unpack_7z E a = Some files)"
  shows "\<exists>rs0. crawl_directory E files (label_or p p) = Inr rs0 \<and>
               sub = map (\<lambda>r. r\<lparr>source_archive := label_or p p\<rparr>) rs0"
proof -
  from assms(2) have "process_archive E a p p =
      (case crawl_loop E (label_or p p) files {} [] of
         Inl x \<Rightarrow> Inl x
       | Inr rs \<Rightarrow> Inr (map (\<lambda>r. r\<lparr>source_archive := label_or p p\<rparr>) rs))"
    by (auto simp: process_archive_zip process_archive_7z unpack_zip_def)
  with assms(1) show ?thesis
    by (auto simp: crawl_directory_def split: sum.splits)
qed

lemma crawl_loop_archive_returns:
  assumes "crawl_loop E l es seen recs = Inr rs" and "a \<in> set es"
    and "lower (suffix (e_name a)) \<in> ARCHIVE_EXTS"
  shows "\<exists>sub. process_archive E a (path_join (e_dir a) (e_name a))
                 (path_join (e_dir a) (e_name a)) = Inr sub"
  using assms(1,2)
proof (induction es arbitrary: seen recs)
  case Nil
  then show ?case by simp
next
  case (Cons e es)
  from Cons.prems(1) show ?case
  proof (cases rule: crawl_loop_Cons_Inr)
    case skipped
    then have "a \<noteq> e" using assms(3) by auto
    then show ?thesis using Cons.IH [OF skipped(1)] Cons.prems(2) by simp
  next
    case (archive sub)
    show ?thesis
    proof (cases "a = e")
      case True
      then show ?thesis using archive(2) by blast
    next
      case False
      then show ?thesis using Cons.IH [OF archive(3)] Cons.prems(2) by simp
    qed
  next
    case (recorded bs tx stat)
    then have "a \<noteq> e" using assms(3) PARSERS_not_ARCHIVE by auto
    then show ?thesis using Cons.IH [OF recorded(4)] Cons.prems(2) by simp
  qed
qed

text \<open>
  C1 as stated fails: \<open>seen_hashes\<close> is a local variable of each call of
  \<open>crawl_directory\<close>, and the call that crawls an unpacked archive starts with an
  empty one. The two bytes \<open>hi\<close> in \<open>storage/a.txt\<close> and again in \<open>c.txt\<close> inside
  \<open>storage/b.zip\<close> give two records with the same fingerprint.
\<close>

theorem duplicate_in_archive_counterexample:
  "crawl_directory sample_env dup_root [] =
     Inr [sample_doc ''a.txt'' ''49f68a5c8493ec2c0bf489821c21fc3b'',
          (sample_doc ''c.txt'' ''49f68a5c8493ec2c0bf489821c21fc3b'')
            \<lparr>file_path := ''/tmp/t1/c.txt'', source_archive := ''storage/b.zip''\<rparr>] \<and>
   \<not> distinct (map file_hash_val
     [sample_doc ''a.txt'' ''49f68a5c8493ec2c0bf489821c21fc3b'',
      (sample_doc ''c.txt'' ''49f68a5c8493ec2c0bf489821c21fc3b'')
        \<lparr>file_path := ''/tmp/t1/c.txt'', source_archive := ''storage/b.zip''\<rparr>])"
  by (simp add: dup_root_def crawl_steps sample_simps sample_doc_def)

text \<open>
  C1, amended. For every call of \<open>crawl_directory\<close>, on the root or on the
  unpacked contents of an archive, with any label: the records that the call produces
  from the files of its own walk, which are what it returns on the walk without its
  archive files, have pairwise different fingerprints, and for every readable file of
  the walk with an extractable extension exactly one of them carries the fingerprint
  of its content, however many files of the walk have the same bytes. The records of
  the call are these together with the records that \<open>process_archive\<close> returns for
  each archive file of the walk, all of them, whatever fingerprints the call has seen;
  and the records of an archive that unpacks are the relabelled records of the call
  of \<open>crawl_directory\<close> on its contents, to which the same applies.
\<close>

theorem one_record_per_content_per_call:
  assumes "crawl_directory E root l = Inr rs"
  shows "\<exists>own.
           crawl_directory E (own_files root) l = Inr own \<and>
           distinct (map file_hash_val own) \<and>
           (\<forall>e\<in>set root. \<forall>bs.
              lower (suffix (e_name e)) \<in> set (map fst PARSERS) \<and> e_bytes e = Some bs \<longrightarrow>
              length (filter (\<lambda>r. file_hash_val r = md5_hexdigest E bs) own) = 1) \<and>
           set rs = set own \<union>
             (\<Union>a \<in> set root \<inter> {a. lower (suffix (e_name a)) \<in> ARCHIVE_EXTS}.
                set (archive_records E a)) \<and>
           (\<forall>a \<in> set root. \<forall>files.
              (lower (suffix (path_join (e_dir a) (e_name a))) = ''.zip'' \<and>
                 unpack_zip a = Some files \<or>
               lower (suffix (path_join (e_dir a) (e_name a))) = ''.7z'' \<and>
                 unpack_7z E a = Some files) \<and>
              lower (suffix (e_name a)) \<in> ARCHIVE_EXTS \<longrightarrow>
              (\<exists>rs0. crawl_directory E files (path_join (e_dir a) (e_name a)) = Inr rs0 \<and>
                     archive_records E a =
                       map (\<lambda>r. r\<lparr>source_archive := path_join (e_dir a) (e_name a)\<rparr>) rs0))"
proof -
  from assms have run: "crawl_loop E l root {} [] = Inr rs"
    by (simp add: crawl_directory_def)
  obtain own new where rs: "rs = [] @ new"
    and own: "\<forall>recs'. crawl_loop E l (own_files root) {} recs' = Inr (recs' @ own)"
    and new: "set new = set own \<union>
             (\<Union>a \<in> set root \<inter> {a. lower (suffix (e_name a)) \<in> ARCHIVE_EXTS}.
                set (archive_records E a))"
    using crawl_loop_split [OF run] by blast
  have own_run: "crawl_loop E l (own_files root) {} [] = Inr own"
    using own by (metis append_Nil)
  have inv: "distinct (map file_hash_val own) \<and>
         {} \<subseteq> set (map file_hash_val own) \<and>
         (\<forall>e\<in>set (own_files root). \<forall>bs.
            lower (suffix (e_name e)) \<in> fst ` set PARSERS \<and> e_bytes e = Some bs
            \<longrightarrow> md5_hexdigest E bs \<in> set (map file_hash_val own))"
    by (rule crawl_loop_own_distinct [OF own_run]) (simp_all add: own_files_def)
  then have d: "distinct (map file_hash_val own)" by blast
  have one: "length (filter (\<lambda>r. file_hash_val r = md5_hexdigest E bs) own) = 1"
    if "e \<in> set root" "lower (suffix (e_name e)) \<in> set (map fst PARSERS)" "e_bytes e = Some bs"
    for e bs
  proof -
    have "e \<in> set (own_files root)"
      using that PARSERS_not_ARCHIVE [of "lower (suffix (e_name e))"]
      by (simp add: own_files_def)
    then have "md5_hexdigest E bs \<in> set (map file_hash_val own)"
      using inv that by auto
    then show ?thesis using d by (rule distinct_count_one [rotated])
  qed
  have arch: "\<exists>rs0. crawl_directory E files (path_join (e_dir a) (e_name a)) = Inr rs0 \<and>
                     archive_records E a =
                       map (\<lambda>r. r\<lparr>source_archive := path_join (e_dir a) (e_name a)\<rparr>) rs0"
    if a: "a \<in> set root" "lower (suffix (e_name a)) \<in> ARCHIVE_EXTS"
      and u: "lower (suffix (path_join (e_dir a) (e_name a))) = ''.zip'' \<and>
                 unpack_zip a = Some files \<or>
               lower (suffix (path_join (e_dir a) (e_name a))) = ''.7z'' \<and>
                 unpack_7z E a = Some files"
    for a files
  proof -
    let ?fp = "path_join (e_dir a) (e_name a)"
    obtain sub where sub: "process_archive E a ?fp ?fp = Inr sub"
      using crawl_loop_archive_returns [OF run a] by blast
    then have "archive_records E a = sub"
      by (simp add: archive_records_def)
    then show ?thesis
      using archive_records_unpacked [OF sub u] by (simp add: label_or_def)
  qed
  show ?thesis
    using own_run d one new rs arch
    by (intro exI [of _ own]) (auto simp: crawl_directory_def)
qed

text \<open>
  \<open>a.txt\<close> and \<open>copy.csv\<close> hold the same bytes and give one record; \<open>c.txt\<close>
  and \<open>d.txt\<close> inside \<open>b.zip\<close> hold these bytes too and give one record of
  their own.
\<close>

theorem one_record_per_content_per_call_witness:
  "crawl_directory sample_env twin_root [] =
     Inr [sample_doc ''a.txt'' ''49f68a5c8493ec2c0bf489821c21fc3b'',
          (sample_doc ''c.txt'' ''49f68a5c8493ec2c0bf489821c21fc3b'')
            \<lparr>file_path := ''/tmp/t1/c.txt'', source_archive := ''storage/b.zip''\<rparr>] \<and>
   crawl_directory sample_env (own_files twin_root) [] =
     Inr [sample_doc ''a.txt'' ''49f68a5c8493ec2c0bf489821c21fc3b''] \<and>
   length (filter (\<lambda>r. file_hash_val r = md5_hexdigest sample_env [104, 105])
     [sample_doc ''a.txt'' ''49f68a5c8493ec2c0bf489821c21fc3b'']) = 1 \<and>
   archive_records sample_env twin_zip =
     [(sample_doc ''c.txt'' ''49f68a5c8493ec2c0bf489821c21fc3b'')
        \<lparr>file_path := ''/tmp/t1/c.txt'', source_archive := ''storage/b.zip''\<rparr>] \<and>
   crawl_directory sample_env
     [plain_file ''/tmp/t1'' ''c.txt'' [104, 105], plain_file ''/tmp/t1'' ''d.txt'' [104, 105]]
     ''storage/b.zip'' =
     Inr [(sample_doc ''c.txt'' ''49f68a5c8493ec2c0bf489821c21fc3b'')
        \<lparr>file_path := ''/tmp/t1/c.txt'', source_archive := ''storage/b.zip''\<rparr>]"
proof -
  let ?a = "sample_doc ''a.txt'' ''49f68a5c8493ec2c0bf489821c21fc3b''"
  let ?c = "(sample_doc ''c.txt'' ''49f68a5c8493ec2c0bf489821c21fc3b'')
              \<lparr>file_path := ''/tmp/t1/c.txt'', source_archive := ''storage/b.zip''\<rparr>"
  let ?files = "[plain_file ''/tmp/t1'' ''c.txt'' [104, 105],
                 plain_file ''/tmp/t1'' ''d.txt'' [104, 105]]"
  have inside: "crawl_directory sample_env ?files ''storage/b.zip'' = Inr [?c]"
    by (simp add: crawl_steps sample_simps sample_doc_def)
  have zip: "process_archive sample_env twin_zip ''storage/b.zip'' ''storage/b.zip'' =
               Inr [?c]"
    by (simp add: twin_zip_def crawl_steps sample_simps sample_doc_def)
  have sel: "e_name twin_zip = ''b.zip''" "e_dir twin_zip = ''storage''"
    by (simp_all add: twin_zip_def archive_file_def)
  have recs: "archive_records sample_env twin_zip = [?c]"
    using zip by (simp add: archive_records_def sel path_join_def)
  have run: "crawl_directory sample_env twin_root [] = Inr [?a, ?c]"
    by (simp add: twin_root_def crawl_steps sample_simps sample_doc_def sel zip)
  have files: "own_files twin_root =
      [plain_file ''storage'' ''a.txt'' [104, 105],
       plain_file ''storage'' ''copy.csv'' [104, 105]]"
    by (simp add: own_files_def twin_root_def sel plain_file_def sample_exts ARCHIVE_EXTS_def)
  have own_run: "crawl_directory sample_env (own_files twin_root) [] = Inr [?a]"
    by (simp add: files crawl_steps sample_simps sample_doc_def)
  obtain own where own: "crawl_directory sample_env (own_files twin_root) [] = Inr own"
    and one: "\<forall>e\<in>set twin_root. \<forall>bs.
              lower (suffix (e_name e)) \<in> set (map fst PARSERS) \<and> e_bytes e = Some bs \<longrightarrow>
              length (filter (\<lambda>r. file_hash_val r = md5_hexdigest sample_env bs) own) = 1"
    using one_record_per_content_per_call [OF run] by blast
  have eq: "own = [?a]"
    using own own_run by simp
  let ?e = "plain_file ''storage'' ''copy.csv'' [104, 105]"
  have "?e \<in> set twin_root"
    by (simp add: twin_root_def)
  moreover have "lower (suffix (e_name ?e)) \<in> set (map fst PARSERS) \<and>
                 e_bytes ?e = Some [104, 105]"
    by (simp add: plain_file_def sample_exts PARSERS_keys)
  ultimately have "length (filter (\<lambda>r. file_hash_val r = md5_hexdigest sample_env [104, 105])
                     own) = 1"
    using one by blast
  with eq run own_run recs inside show ?thesis by simp
qed

section \<open>C5: loading into the store\<close>

lemma row_hashes_append:
  "row_hashes (rows @ [(i, r)]) = insert (file_hash_val r) (row_hashes rows)"
  by (simp add: row_hashes_def)

lemma insert_loop_rows:
  "\<exists>new. fst (insert_loop rows seq n rs) = rows @ new \<and>
         map snd new = first_seen (row_hashes rows) rs"
proof (induction rs arbitrary: rows seq n)
  case Nil
  then show ?case by simp
next
  case (Cons r rs)
  show ?case
  proof (cases "file_hash_val r \<in> row_hashes rows")
    case True
    then show ?thesis
      using Cons.IH [of rows "next_id rows seq" n]
      by (simp add: insert_or_ignore_def row_hashes_def)
  next
    case False
    let ?i = "next_id rows seq"
    obtain new where new: "fst (insert_loop (rows @ [(?i, r)]) ?i (n + 1) rs) =
                        (rows @ [(?i, r)]) @ new"
      and snd: "map snd new = first_seen (row_hashes (rows @ [(?i, r)])) rs"
      using Cons.IH [of "rows @ [(?i, r)]" ?i "n + 1"] by blast
    have "fst (insert_loop rows seq n (r # rs)) = rows @ ((?i, r) # new)"
      using False new by (simp add: insert_or_ignore_def row_hashes_def)
    moreover have "map snd ((?i, r) # new) = first_seen (row_hashes rows) (r # rs)"
      using False snd by (simp add: row_hashes_append)
    ultimately show ?thesis by blast
  qed
qed

lemma insert_loop_hashes:
  "row_hashes (fst (insert_loop rows seq n rs)) = row_hashes rows \<union> file_hash_val ` set rs"
proof (induction rs arbitrary: rows seq n)
  case Nil
  then show ?case by simp
next
  case (Cons r rs)
  show ?case
  proof (cases "file_hash_val r \<in> row_hashes rows")
    case True
    then show ?thesis
      using Cons.IH [of rows "next_id rows seq" n]
      by (auto simp: insert_or_ignore_def row_hashes_def)
  next
    case False
    then show ?thesis
      using Cons.IH [of "rows @ [(next_id rows seq, r)]" "next_id rows seq" "n + 1"]
      by (auto simp: insert_or_ignore_def row_hashes_def)
  qed
qed

lemma insert_loop_noop:
  "\<forall>r\<in>set rs. file_hash_val r \<in> row_hashes rows \<Longrightarrow>
   fst (insert_loop rows seq n rs) = rows \<and> snd (snd (insert_loop rows seq n rs)) = n"
  by (induction rs arbitrary: seq n) (simp_all add: insert_or_ignore_def row_hashes_def)

lemma first_seen_fresh: "r \<in> set (first_seen H rs) \<Longrightarrow> file_hash_val r \<notin> H"
  by (induction rs arbitrary: H) (auto split: if_splits)

lemma first_seen_distinct: "distinct (map file_hash_val (first_seen H rs))"
proof (induction rs arbitrary: H)
  case Nil
  then show ?case by simp
next
  case (Cons r rs)
  have "file_hash_val r \<notin> file_hash_val ` set (first_seen (insert (file_hash_val r) H) rs)"
    using first_seen_fresh [of _ "insert (file_hash_val r) H" rs] by force
  then show ?case
    using Cons.IH by simp
qed

lemma first_seen_find:
  "h \<notin> H \<Longrightarrow> find (\<lambda>r. file_hash_val r = h) (first_seen H rs) =
               find (\<lambda>r. file_hash_val r = h) rs"
  by (induction rs arbitrary: H) auto

lemma load_to_sqlite_sel:
  "documents (fst (load_to_sqlite rs db)) =
     fst (insert_loop (case db of None \<Rightarrow> [] | Some s \<Rightarrow> documents s)
            (case db of None \<Rightarrow> 0 | Some s \<Rightarrow> sqlite_sequence s) 0 rs)"
  "documents_fts (fst (load_to_sqlite rs db)) = rebuild (documents (fst (load_to_sqlite rs db)))"
  "snd (load_to_sqlite rs db) =
     snd (snd (insert_loop (case db of None \<Rightarrow> [] | Some s \<Rightarrow> documents s)
                 (case db of None \<Rightarrow> 0 | Some s \<Rightarrow> sqlite_sequence s) 0 rs))"
  by (simp_all add: load_to_sqlite_def split: prod.splits)

text \<open>
  C5. \<open>load_to_sqlite\<close> keeps the rows the table had and appends rows after them.
  No appended row has a fingerprint that the table held already, no two appended rows
  have the same fingerprint, and for a fingerprint that the table did not hold the
  appended row is the first record of the load with that fingerprint; the later ones
  are dropped without an error. Loading the same records again leaves the table
  \<open>documents\<close> and the index \<open>documents_fts\<close> as they are and inserts no row.
\<close>

theorem load_first_seen_wins:
  "\<exists>new.
     documents (fst (load_to_sqlite records db)) =
       (case db of None \<Rightarrow> [] | Some s \<Rightarrow> documents s) @ new \<and>
     (\<forall>r \<in> set (map snd new).
        file_hash_val r \<notin> row_hashes (case db of None \<Rightarrow> [] | Some s \<Rightarrow> documents s)) \<and>
     distinct (map (file_hash_val \<circ> snd) new) \<and>
     (\<forall>h. h \<notin> row_hashes (case db of None \<Rightarrow> [] | Some s \<Rightarrow> documents s) \<longrightarrow>
        find (\<lambda>r. file_hash_val r = h) (map snd new) =
        find (\<lambda>r. file_hash_val r = h) records) \<and>
     documents (fst (load_to_sqlite records (Some (fst (load_to_sqlite records db))))) =
       documents (fst (load_to_sqlite records db)) \<and>
     documents_fts (fst (load_to_sqlite records (Some (fst (load_to_sqlite records db))))) =
       documents_fts (fst (load_to_sqlite records db)) \<and>
     snd (load_to_sqlite records (Some (fst (load_to_sqlite records db)))) = 0"
proof -
  let ?rows0 = "case db of None \<Rightarrow> [] | Some s \<Rightarrow> documents s"
  let ?seq0 = "case db of None \<Rightarrow> 0 | Some s \<Rightarrow> sqlite_sequence s"
  let ?s1 = "fst (load_to_sqlite records db)"
  have docs: "documents ?s1 = fst (insert_loop ?rows0 ?seq0 0 records)"
    by (rule load_to_sqlite_sel)
  have fts: "documents_fts ?s1 = rebuild (documents ?s1)"
    by (rule load_to_sqlite_sel)
  obtain new where new: "documents ?s1 = ?rows0 @ new"
    and snd: "map snd new = first_seen (row_hashes ?rows0) records"
    using insert_loop_rows [of ?rows0 ?seq0 0 records] docs by auto
  have fresh: "\<forall>r \<in> set (map snd new). file_hash_val r \<notin> row_hashes ?rows0"
    using first_seen_fresh snd by metis
  have dist: "distinct (map (file_hash_val \<circ> snd) new)"
    using first_seen_distinct [of "row_hashes ?rows0" records] snd
    by (metis map_map)
  have first: "\<forall>h. h \<notin> row_hashes ?rows0 \<longrightarrow>
        find (\<lambda>r. file_hash_val r = h) (map snd new) =
        find (\<lambda>r. file_hash_val r = h) records"
    using first_seen_find snd by metis
  have "\<forall>r\<in>set records. file_hash_val r \<in> row_hashes (documents ?s1)"
    using insert_loop_hashes [of ?rows0 ?seq0 0 records] docs by auto
  then have noop: "fst (insert_loop (documents ?s1) (sqlite_sequence ?s1) 0 records) =
                     documents ?s1 \<and>
                   snd (snd (insert_loop (documents ?s1) (sqlite_sequence ?s1) 0 records)) = 0"
    by (rule insert_loop_noop)
  have again: "documents (fst (load_to_sqlite records (Some ?s1))) = documents ?s1 \<and>
               documents_fts (fst (load_to_sqlite records (Some ?s1))) = documents_fts ?s1 \<and>
               snd (load_to_sqlite records (Some ?s1)) = 0"
    using noop fts by (simp add: load_to_sqlite_sel)
  show ?thesis
    using new fresh dist first again by blast
qed

text \<open>
  Three records, the second a duplicate of the first, loaded into a database that
  does not exist yet: two rows, with the \<open>id\<close> 2 used up by the dropped record, and
  the same two rows when loaded again, while the counter moves on.
\<close>

theorem load_first_seen_wins_witness:
  "load_to_sqlite sample_records None =
     (\<lparr>documents =
          [(1, sample_doc ''a.txt'' ''49f68a5c8493ec2c0bf489821c21fc3b''),
           (3, sample_doc ''b.txt'' ''444bcb3a3fcf8389296c49467f27e1d6'')],
        documents_fts = [(1, ''a.txt'', [104, 105]), (3, ''b.txt'', [104, 105])],
        sqlite_sequence = 3\<rparr>, 2) \<and>
   find (\<lambda>r. file_hash_val r = ''49f68a5c8493ec2c0bf489821c21fc3b'') sample_records =
     Some (sample_doc ''a.txt'' ''49f68a5c8493ec2c0bf489821c21fc3b'') \<and>
   load_to_sqlite sample_records (Some (fst (load_to_sqlite sample_records None))) =
     (\<lparr>documents =
          [(1, sample_doc ''a.txt'' ''49f68a5c8493ec2c0bf489821c21fc3b''),
           (3, sample_doc ''b.txt'' ''444bcb3a3fcf8389296c49467f27e1d6'')],
        documents_fts = [(1, ''a.txt'', [104, 105]), (3, ''b.txt'', [104, 105])],
        sqlite_sequence = 6\<rparr>, 0)"
proof -
  let ?s1 = "\<lparr>documents =
          [(1, sample_doc ''a.txt'' ''49f68a5c8493ec2c0bf489821c21fc3b''),
           (3, sample_doc ''b.txt'' ''444bcb3a3fcf8389296c49467f27e1d6'')],
        documents_fts = [(1, ''a.txt'', [104, 105]), (3, ''b.txt'', [104, 105])],
        sqlite_sequence = 3\<rparr>"
  have first: "load_to_sqlite sample_records None = (?s1, 2)"
    by (simp add: load_to_sqlite_def sample_records_def insert_or_ignore_def next_id_def
        rebuild_def sample_doc_def)
  have found: "find (\<lambda>r. file_hash_val r = ''49f68a5c8493ec2c0bf489821c21fc3b'')
                 sample_records =
               Some (sample_doc ''a.txt'' ''49f68a5c8493ec2c0bf489821c21fc3b'')"
    by (simp add: sample_records_def sample_doc_def)
  have seq: "sqlite_sequence (fst (load_to_sqlite sample_records (Some ?s1))) = 6"
    by (simp add: load_to_sqlite_def sample_records_def insert_or_ignore_def next_id_def
        rebuild_def sample_doc_def)
  have "documents (fst (load_to_sqlite sample_records
                          (Some (fst (load_to_sqlite sample_records None))))) =
          documents (fst (load_to_sqlite sample_records None)) \<and>
        documents_fts (fst (load_to_sqlite sample_records
                              (Some (fst (load_to_sqlite sample_records None))))) =
          documents_fts (fst (load_to_sqlite sample_records None)) \<and>
        snd (load_to_sqlite sample_records
               (Some (fst (load_to_sqlite sample_records None)))) = 0"
    using load_first_seen_wins [of sample_records None] by blast
  then have "load_to_sqlite sample_records (Some ?s1) =
               (?s1\<lparr>sqlite_sequence := 6\<rparr>, 0)"
    using seq by (simp add: first prod_eq_iff store.equality)
  with first found show ?thesis by simp
qed

end
